theory Spec2Isabelle
  imports Main "HOL-Library.Word" "HOL-Library.Sublist" "HOL-Library.AList" "HOL-Library.Multiset"
begin

section \<open>JavaScript strings\<close>

text \<open>
  A JavaScript string is a sequence of UTF-16 code units; the regular expressions of
  \<^verbatim>\<open>extension.ts\<close> carry no \<^verbatim>\<open>u\<close> flag and therefore work on code units.
  \<open>js\<close> embeds an ASCII literal of the source.
\<close>

type_synonym code_unit = "16 word"
type_synonym jsstring = "code_unit list"

definition js :: "string \<Rightarrow> jsstring" where
  "js s = map of_char s"

text \<open>Thrown values are \<^verbatim>\<open>Error\<close> objects; \<open>errorString\<close> reads the message.\<close>

datatype js_error = Error jsstring

fun errorString :: "js_error \<Rightarrow> jsstring" where
  "errorString (Error message) = message"

definition startsWith :: "jsstring \<Rightarrow> jsstring \<Rightarrow> bool" where
  "startsWith s p \<longleftrightarrow> prefix p s"

definition endsWith :: "jsstring \<Rightarrow> jsstring \<Rightarrow> bool" where
  "endsWith s p \<longleftrightarrow> suffix p s"

text \<open>\<^verbatim>\<open>s.split(sep)\<close> for a one-unit separator: never the empty array.\<close>

fun split :: "jsstring \<Rightarrow> code_unit \<Rightarrow> jsstring list" where
  "split [] sep = [[]]"
| "split (c # cs) sep =
     (if c = sep then [] # split cs sep
      else (case split cs sep of
              [] \<Rightarrow> [[c]]
            | seg # segs \<Rightarrow> (c # seg) # segs))"

text \<open>
  A \<^verbatim>\<open>Set<string>\<close> keeps its elements in insertion order and ignores a second
  \<^verbatim>\<open>add\<close> of the same element; \<^verbatim>\<open>Array.from\<close> reads it in that order.
\<close>

definition set_add :: "jsstring list \<Rightarrow> jsstring \<Rightarrow> jsstring list" where
  "set_add s x = (if x \<in> set s then s else s @ [x])"

section \<open>The three regular expressions\<close>

text \<open>
  Each matcher tries its pattern at the start of the given text, as the regular
  expression engine does at one index, and returns the array \<^verbatim>\<open>[match, group1]\<close> as a
  pair. None of the patterns has an anchor or a look-behind, so a match at an index
  depends on the text from that index on only.

  \<open>quoted\<close> is \<^verbatim>\<open>['"]([^'"]+)['"]\<close>: the greedy class takes the whole run of
  non-quote units, and no shorter run can be followed by a quote. It returns the
  group and the text after the closing quote.
\<close>

definition is_quote :: "code_unit \<Rightarrow> bool" where
  "is_quote c \<longleftrightarrow> c = 0x27 \<or> c = 0x22"

definition quoted :: "jsstring \<Rightarrow> (jsstring \<times> jsstring) option" where
  "quoted s =
     (case s of
        [] \<Rightarrow> None
      | q # t \<Rightarrow>
          if \<not> is_quote q then None
          else (let group1 = takeWhile (\<lambda>c. \<not> is_quote c) t in
                if group1 = [] then None
                else (case dropWhile (\<lambda>c. \<not> is_quote c) t of
                        [] \<Rightarrow> None
                      | q' # rest \<Rightarrow> Some (group1, rest))))"

text \<open>
  \<^verbatim>\<open>require\(['"]([^'"]+)['"]\)\<close> and \<^verbatim>\<open>import\(['"]([^'"]+)['"]\)\<close>: the keyword
  with its parenthesis, the quoted literal, the closing parenthesis.
\<close>

definition call_regex :: "jsstring \<Rightarrow> jsstring \<Rightarrow> (jsstring \<times> jsstring) option" where
  "call_regex keyword s =
     (if prefix keyword s then
        (case quoted (drop (length keyword) s) of
           Some (group1, c # rest) \<Rightarrow>
             if c = 0x29 then Some (take (length s - length rest) s, group1) else None
         | _ \<Rightarrow> None)
      else None)"

definition require_regex :: "jsstring \<Rightarrow> (jsstring \<times> jsstring) option" where
  "require_regex = call_regex (js ''require('')"

definition dynamic_import_regex :: "jsstring \<Rightarrow> (jsstring \<times> jsstring) option" where
  "dynamic_import_regex = call_regex (js ''import('')"

text \<open>
  \<^verbatim>\<open>from ['"]([^'"]+)['"]\<close>, the pattern of the second pass over a static import.
\<close>

definition from_regex :: "jsstring \<Rightarrow> (jsstring \<times> jsstring) option" where
  "from_regex s =
     (if prefix (js ''from '') s then
        (case quoted (drop 5 s) of
           Some (group1, rest) \<Rightarrow> Some (take (length s - length rest) s, group1)
         | None \<Rightarrow> None)
      else None)"

text \<open>
  \<^verbatim>\<open>import .+ from ['"]([^'"]+)['"]\<close>. The dot matches every code unit but the four
  line terminators. \<^verbatim>\<open>.+\<close> is greedy: it first takes the whole run up to the next line
  terminator and gives units back one at a time, down to one unit, until the rest of
  the pattern matches; \<open>backtrack\<close> is that loop, \<open>n\<close> the number of units the dot
  still holds.
\<close>

definition is_line_terminator :: "code_unit \<Rightarrow> bool" where
  "is_line_terminator c \<longleftrightarrow> c = 0x0A \<or> c = 0x0D \<or> c = 0x2028 \<or> c = 0x2029"

definition space_from_regex :: "jsstring \<Rightarrow> (jsstring \<times> jsstring) option" where
  "space_from_regex s =
     (if prefix (js '' from '') s then
        (case quoted (drop 6 s) of
           Some (group1, rest) \<Rightarrow> Some (take (length s - length rest) s, group1)
         | None \<Rightarrow> None)
      else None)"

fun backtrack :: "nat \<Rightarrow> jsstring \<Rightarrow> (jsstring \<times> jsstring) option" where
  "backtrack 0 t = None"
| "backtrack (Suc n) t =
     (case space_from_regex (drop (Suc n) t) of
        Some (m, group1) \<Rightarrow> Some (take (Suc n) t @ m, group1)
      | None \<Rightarrow> backtrack n t)"

definition import_regex :: "jsstring \<Rightarrow> (jsstring \<times> jsstring) option" where
  "import_regex s =
     (if prefix (js ''import '') s then
        (let t = drop 7 s in
         case backtrack (length (takeWhile (\<lambda>c. \<not> is_line_terminator c) t)) t of
           Some (m, group1) \<Rightarrow> Some (js ''import '' @ m, group1)
         | None \<Rightarrow> None)
      else None)"

text \<open>
  \<^verbatim>\<open>content.match(re)\<close> with the \<^verbatim>\<open>g\<close> flag: the matches from left to right, each
  search starting where the previous match ended (one unit further after an empty
  match); the empty list stands for \<^verbatim>\<open>null\<close>.
\<close>

function match_g :: "(jsstring \<Rightarrow> (jsstring \<times> jsstring) option) \<Rightarrow> jsstring \<Rightarrow> jsstring list" where
  "match_g re s =
     (case re s of
        Some (m, group1) \<Rightarrow>
          m # (if s = [] then [] else match_g re (drop (max 1 (length m)) s))
      | None \<Rightarrow> (case s of [] \<Rightarrow> [] | c # t \<Rightarrow> match_g re t))"
  by pat_completeness auto
termination
  by (relation "measure (\<lambda>(re, s). length s)") auto

text \<open>
  \<^verbatim>\<open>re.exec(s)\<close> on a regular expression whose \<^verbatim>\<open>lastIndex\<close> is 0: the leftmost
  match, or \<open>None\<close> for \<^verbatim>\<open>null\<close>.
\<close>

fun exec :: "(jsstring \<Rightarrow> (jsstring \<times> jsstring) option) \<Rightarrow> jsstring \<Rightarrow> (jsstring \<times> jsstring) option" where
  "exec re [] = re []"
| "exec re (c # t) = (case re (c # t) of Some r \<Rightarrow> Some r | None \<Rightarrow> exec re t)"

section \<open>analyzeFileImports\<close>

text \<open>
  The body of every \<^verbatim>\<open>forEach\<close> of \<open>analyzeFileImports\<close>: the second pass over one
  match, the test on the captured specifier, the base name, the insertion.
\<close>

definition add_import :: "(jsstring \<Rightarrow> (jsstring \<times> jsstring) option) \<Rightarrow> jsstring list \<Rightarrow> jsstring \<Rightarrow> jsstring list" where
  "add_import re imports m =
     (case exec re m of
        None \<Rightarrow> imports
      | Some (m', pkg) \<Rightarrow>
          if pkg = [] then imports
          else if \<not> startsWith pkg (js ''.'') \<and> \<not> startsWith pkg (js ''/'') then
            (case split pkg 0x2F of
               [] \<Rightarrow> imports
             | baseName # segs \<Rightarrow> set_add imports baseName)
          else imports)"

definition scan :: "(jsstring \<Rightarrow> (jsstring \<times> jsstring) option) \<Rightarrow> (jsstring \<Rightarrow> (jsstring \<times> jsstring) option) \<Rightarrow> jsstring \<Rightarrow> jsstring list \<Rightarrow> jsstring list" where
  "scan re_g re content imports = foldl (add_import re) imports (match_g re_g content)"

text \<open>
  The argument is what \<^verbatim>\<open>fs.readFileSync(filePath, "utf8")\<close> gave: the text, or the
  error it threw. The read is outside the \<^verbatim>\<open>try\<close> block, so its error leaves the
  function; nothing inside the block throws.
\<close>

definition analyzeFileImports :: "js_error + jsstring \<Rightarrow> js_error + jsstring list" where
  "analyzeFileImports readFileSync =
     (case readFileSync of
        Inl e \<Rightarrow> Inl e
      | Inr content \<Rightarrow>
          Inr (scan dynamic_import_regex dynamic_import_regex content
                (scan import_regex from_regex content
                  (scan require_regex require_regex content []))))"

section \<open>The file system seen by the tree walk\<close>

text \<open>
  What the walk can observe of a path: \<^verbatim>\<open>statSync\<close> throws (then \<^verbatim>\<open>existsSync\<close> is
  false as well), or the path is a directory whose listing \<^verbatim>\<open>readdirSync\<close> returns
  or refuses, or it is something else, with what \<^verbatim>\<open>readFileSync\<close> gives for it. A
  listing pairs every entry name with the node found under that name.
\<close>

datatype fsnode =
    Inaccessible js_error
  | File "js_error + jsstring"
  | UnreadableDirectory js_error
  | Directory "(jsstring \<times> fsnode) list"

fun isDirectory :: "fsnode \<Rightarrow> js_error + bool" where
  "isDirectory (Inaccessible e) = Inl e"
| "isDirectory (File c) = Inr False"
| "isDirectory (UnreadableDirectory e) = Inr True"
| "isDirectory (Directory allEntries) = Inr True"

fun readFileSync :: "fsnode \<Rightarrow> js_error + jsstring" where
  "readFileSync (File c) = c"
| "readFileSync (Inaccessible e) = Inl e"
| "readFileSync (UnreadableDirectory e) = Inl (Error (js ''EISDIR: illegal operation on a directory, read''))"
| "readFileSync (Directory allEntries) = Inl (Error (js ''EISDIR: illegal operation on a directory, read''))"

text \<open>
  \<^verbatim>\<open>path.join(targetPath, entry)\<close> for a normalised \<open>targetPath\<close> without a final
  separator and an entry name of a listing.
\<close>

definition path_join :: "jsstring \<Rightarrow> jsstring \<Rightarrow> jsstring" where
  "path_join targetPath entry = targetPath @ js ''/'' @ entry"

datatype structure_node =
    DirectoryNode jsstring jsstring "structure_node list"
  | FileNode jsstring jsstring

record ProjectAnalysis =
  "structure" :: "structure_node list"
  packageImports :: "(jsstring \<times> jsstring list) list"
  suggestedAnalysis :: "jsstring list"

text \<open>
  \<open>packageImports\<close> is a \<^verbatim>\<open>Record<string, string[]>\<close> keyed by file paths: an
  assignment to a key replaces the value in place or appends the key, which is
  \<open>AList.update\<close>; \<^verbatim>\<open>Object.assign\<close> assigns the source's entries in their order.
  The keys are joined paths or paths of documents: they hold a separator, and none
  is a key that a JavaScript object treats apart (\<^verbatim>\<open>__proto__\<close>, an array index).
\<close>

definition Object_assign :: "(jsstring \<times> 'v) list \<Rightarrow> (jsstring \<times> 'v) list \<Rightarrow> (jsstring \<times> 'v) list" where
  "Object_assign target source = foldl (\<lambda>obj (k, v). AList.update k v obj) target source"

definition empty_analysis :: ProjectAnalysis where
  "empty_analysis = \<lparr>structure = [], packageImports = [], suggestedAnalysis = []\<rparr>"

section \<open>analyzeProjectStructure\<close>

text \<open>
  The first \<^verbatim>\<open>forEach\<close>: an entry whose \<^verbatim>\<open>statSync\<close> throws is skipped, a directory
  is kept unless its name is excluded, anything else is kept when its name ends
  with one of the four extensions.
\<close>

definition keep_directory :: "jsstring \<Rightarrow> bool" where
  "keep_directory entry \<longleftrightarrow>
     entry \<noteq> js ''node_modules'' \<and> entry \<noteq> js ''.git'' \<and> \<not> startsWith entry (js ''.'')"

definition keep_file :: "jsstring \<Rightarrow> bool" where
  "keep_file entry \<longleftrightarrow>
     endsWith entry (js ''.js'') \<or> endsWith entry (js ''.jsx'') \<or>
     endsWith entry (js ''.ts'') \<or> endsWith entry (js ''.tsx'')"

definition list_directories :: "(jsstring \<times> fsnode) list \<Rightarrow> (jsstring \<times> fsnode) list" where
  "list_directories allEntries =
     filter (\<lambda>(entry, node). isDirectory node = Inr True \<and> keep_directory entry) allEntries"

definition list_files :: "(jsstring \<times> fsnode) list \<Rightarrow> (jsstring \<times> fsnode) list" where
  "list_files allEntries =
     filter (\<lambda>(entry, node). isDirectory node = Inr False \<and> keep_file entry) allEntries"

text \<open>The body of the second \<^verbatim>\<open>forEach\<close>, after the recursive call returned.\<close>

definition add_directory :: "jsstring \<Rightarrow> ProjectAnalysis \<Rightarrow> jsstring \<Rightarrow> ProjectAnalysis \<Rightarrow> ProjectAnalysis" where
  "add_directory targetPath analysisResult dir subAnalysis =
     \<lparr>structure = structure analysisResult @
        [DirectoryNode dir (path_join targetPath dir) (structure subAnalysis)],
      packageImports = Object_assign (packageImports analysisResult) (packageImports subAnalysis),
      suggestedAnalysis = suggestedAnalysis analysisResult @ suggestedAnalysis subAnalysis\<rparr>"

text \<open>
  The body of the third \<^verbatim>\<open>forEach\<close>. The structure entry is pushed before the
  \<^verbatim>\<open>try\<close>; an error of \<open>analyzeFileImports\<close> is caught and only warned about.
\<close>

definition add_file :: "jsstring \<Rightarrow> ProjectAnalysis \<Rightarrow> jsstring \<times> fsnode \<Rightarrow> ProjectAnalysis" where
  "add_file targetPath analysisResult entry =
     (let fullPath = path_join targetPath (fst entry);
          pushed = analysisResult\<lparr>structure := structure analysisResult @ [FileNode (fst entry) fullPath]\<rparr>
      in case analyzeFileImports (readFileSync (snd entry)) of
           Inl e \<Rightarrow> pushed
         | Inr imports \<Rightarrow>
             if length imports > 0 then
               (let recorded = pushed\<lparr>packageImports := AList.update fullPath imports (packageImports pushed)\<rparr>
                in if length imports > 3
                   then recorded\<lparr>suggestedAnalysis := suggestedAnalysis recorded @ [fullPath]\<rparr>
                   else recorded)
             else pushed)"

text \<open>
  The walk itself. \<^verbatim>\<open>existsSync\<close> is false exactly on an inaccessible path. Nothing
  guards \<^verbatim>\<open>readdirSync\<close>, nor the recursive call: an error of either leaves the
  function, at every depth.
\<close>

function analyzeProjectStructure :: "jsstring \<Rightarrow> fsnode \<Rightarrow> js_error + ProjectAnalysis"
  and walk_directories :: "jsstring \<Rightarrow> (jsstring \<times> fsnode) list \<Rightarrow> ProjectAnalysis \<Rightarrow> js_error + ProjectAnalysis"
where
  "analyzeProjectStructure targetPath (Inaccessible e) = Inr empty_analysis"
| "analyzeProjectStructure targetPath (File c) =
     Inl (Error (js ''ENOTDIR: not a directory, scandir''))"
| "analyzeProjectStructure targetPath (UnreadableDirectory e) = Inl e"
| "analyzeProjectStructure targetPath (Directory allEntries) =
     (case walk_directories targetPath (list_directories allEntries) empty_analysis of
        Inl e \<Rightarrow> Inl e
      | Inr analysisResult \<Rightarrow>
          Inr (foldl (add_file targetPath) analysisResult (list_files allEntries)))"
| "walk_directories targetPath [] analysisResult = Inr analysisResult"
| "walk_directories targetPath (d # rest) analysisResult =
     (case analyzeProjectStructure (path_join targetPath (fst d)) (snd d) of
        Inl e \<Rightarrow> Inl e
      | Inr subAnalysis \<Rightarrow>
          walk_directories targetPath rest
            (add_directory targetPath analysisResult (fst d) subAnalysis))"
  by pat_completeness auto

termination
proof (relation "measure (\<lambda>x. case x of
          Inl (targetPath, node) \<Rightarrow> size node
        | Inr (targetPath, ds, analysisResult) \<Rightarrow> size_list (\<lambda>d. size (snd d)) ds)")
  show "wf (measure (\<lambda>x. case x of
          Inl (targetPath, node) \<Rightarrow> size node
        | Inr (targetPath, ds, analysisResult) \<Rightarrow> size_list (\<lambda>d. size (snd d)) ds))"
    by simp
next
  fix targetPath :: jsstring and allEntries :: "(jsstring \<times> fsnode) list"
  have kept: "size_list (\<lambda>d. size (snd d)) (list_directories allEntries)
      \<le> size_list (\<lambda>d. size (snd d)) allEntries"
    unfolding list_directories_def by (induction allEntries) auto
  have listed: "size_list (\<lambda>d. size (snd d)) allEntries
      \<le> size_list (size_prod (\<lambda>x. 0) size) allEntries"
    by (induction allEntries) auto
  have "size_list (\<lambda>d. size (snd d)) (list_directories allEntries) < size (Directory allEntries)"
    using kept listed by simp
  then show "(Inr (targetPath, list_directories allEntries, empty_analysis), Inl (targetPath, Directory allEntries))
      \<in> measure (\<lambda>x. case x of
          Inl (targetPath, node) \<Rightarrow> size node
        | Inr (targetPath, ds, analysisResult) \<Rightarrow> size_list (\<lambda>d. size (snd d)) ds)"
    by simp
qed auto

section \<open>Usage aggregation\<close>

text \<open>
  \<^verbatim>\<open>Object.values(packageImports)\<close> are the import lists in the order of the keys;
  every package of every list is added to one \<^verbatim>\<open>Set\<close>.
\<close>

definition extractUniquePackages :: "(jsstring \<times> jsstring list) list \<Rightarrow> jsstring list" where
  "extractUniquePackages fileImports =
     foldl (\<lambda>uniquePackages imports. foldl set_add uniquePackages imports) [] (map snd fileImports)"

text \<open>
  The \<open>packageUsage\<close> fold of \<open>generateAnalysisHTML\<close>. \<open>packageUsage\<close> is a plain
  object literal, and its keys are package names, which come from file text and can
  be any string. For a name that \<^verbatim>\<open>Object.prototype\<close> defines, \<^verbatim>\<open>packageUsage[pkg]\<close>
  reads the inherited member, which is truthy: the entry is not initialised, and
  \<^verbatim>\<open>packageUsage[pkg].files\<close> is undefined, so that \<^verbatim>\<open>push\<close> throws a TypeError.
  \<open>count\<close> is a JavaScript number, exact far beyond any number of files.
\<close>

record usage =
  count :: nat
  files :: "jsstring list"

definition Object_prototype_keys :: "jsstring list" where
  "Object_prototype_keys =
     map js [''constructor'', ''__defineGetter__'', ''__defineSetter__'', ''hasOwnProperty'',
       ''__lookupGetter__'', ''__lookupSetter__'', ''isPrototypeOf'', ''propertyIsEnumerable'',
       ''toString'', ''valueOf'', ''__proto__'', ''toLocaleString'']"

definition count_import :: "jsstring \<Rightarrow> (jsstring \<times> usage) list \<Rightarrow> jsstring \<Rightarrow> js_error + (jsstring \<times> usage) list" where
  "count_import file packageUsage pkg =
     (if pkg \<in> set Object_prototype_keys then
        Inl (Error (js ''Cannot read properties of undefined (reading 'push')''))
      else
        (let initialised =
               (if map_of packageUsage pkg = None
                then AList.update pkg \<lparr>count = 0, files = []\<rparr> packageUsage
                else packageUsage)
         in Inr (AList.map_entry pkg
                  (\<lambda>u. \<lparr>count = count u + 1, files = files u @ [file]\<rparr>) initialised)))"

fun count_imports :: "jsstring \<Rightarrow> (jsstring \<times> usage) list \<Rightarrow> jsstring list \<Rightarrow> js_error + (jsstring \<times> usage) list" where
  "count_imports file packageUsage [] = Inr packageUsage"
| "count_imports file packageUsage (pkg # imports) =
     (case count_import file packageUsage pkg of
        Inl e \<Rightarrow> Inl e
      | Inr packageUsage' \<Rightarrow> count_imports file packageUsage' imports)"

fun count_entries :: "(jsstring \<times> usage) list \<Rightarrow> (jsstring \<times> jsstring list) list \<Rightarrow> js_error + (jsstring \<times> usage) list" where
  "count_entries packageUsage [] = Inr packageUsage"
| "count_entries packageUsage ((file, imports) # entries) =
     (case count_imports file packageUsage imports of
        Inl e \<Rightarrow> Inl e
      | Inr packageUsage' \<Rightarrow> count_entries packageUsage' entries)"

definition packageUsage :: "(jsstring \<times> jsstring list) list \<Rightarrow> js_error + (jsstring \<times> usage) list" where
  "packageUsage fileImports = count_entries [] fileImports"

section \<open>fetchNpmMetadata\<close>

text \<open>
  \<^verbatim>\<open>axios.get\<close> rejects, or resolves with a status and a body. The registry body is
  read through the members the code touches; \<open>None\<close> stands for an absent member.
  A body that is \<^verbatim>\<open>null\<close> or \<^verbatim>\<open>undefined\<close> is the \<open>None\<close> of the response itself.
  The response to a request is a function of the package name.
\<close>

datatype 'a response = Rejected js_error | Resolved nat "'a option"

record registry_data =
  data_dist_tags_latest :: "jsstring option"
  data_description :: "jsstring option"
  data_license :: "jsstring option"
  data_homepage :: "jsstring option"
  data_repository_url :: "jsstring option"
  data_maintainers_length :: "nat option"
  data_time :: "(jsstring \<times> jsstring) list option"
  data_versions :: "(jsstring \<times> (jsstring \<times> jsstring) list option) list option"

record downloads_data =
  data_downloads :: "nat option"

record network =
  registry :: "jsstring \<Rightarrow> registry_data response"
  downloads_api :: "jsstring \<Rightarrow> downloads_data response"

datatype request = RegistryGet jsstring | DownloadsGet jsstring

text \<open>The entries of \<open>packageData\<close>; \<open>None\<close> is a member the object does not have.\<close>

record package_metadata =
  name :: jsstring
  description :: jsstring
  version :: jsstring
  license :: "jsstring option"
  homepage :: "jsstring option"
  repository :: "jsstring option"
  maintainers :: "nat option"
  lastPublished :: "jsstring option"
  dependencies :: "(jsstring \<times> jsstring) list option"
  weeklyDownloads :: "nat option"
  alternatives :: "jsstring list option"
  error :: "jsstring option"

text \<open>
  \<open>packageData\<close> is a plain object literal keyed by package names, which come from
  file text and can be any string. An assignment to the key \<^verbatim>\<open>__proto__\<close> runs the
  setter of \<^verbatim>\<open>Object.prototype\<close>: it replaces the prototype and creates no own
  property, and a later read of that key returns the prototype. \<^verbatim>\<open>Object.keys\<close>
  lists the own properties only.
\<close>

record 'v jsobject =
  own :: "(jsstring \<times> 'v) list"
  proto :: "'v option"

definition empty_object :: "'v jsobject" where
  "empty_object = \<lparr>own = [], proto = None\<rparr>"

definition obj_assign :: "'v jsobject \<Rightarrow> jsstring \<Rightarrow> 'v \<Rightarrow> 'v jsobject" where
  "obj_assign obj k v =
     (if k = js ''__proto__'' then obj\<lparr>proto := Some v\<rparr>
      else obj\<lparr>own := AList.update k v (own obj)\<rparr>)"

text \<open>
  \<open>obj_get obj k\<close> is the object that \<^verbatim>\<open>obj[k]\<close> evaluates to, for an own key or
  \<^verbatim>\<open>__proto__\<close>; \<open>obj_modify\<close> is an assignment to a member of that object. The code
  uses both on a key it has assigned before or on one of \<^verbatim>\<open>Object.keys\<close> only.
\<close>

definition obj_get :: "'v jsobject \<Rightarrow> jsstring \<Rightarrow> 'v option" where
  "obj_get obj k = (if k = js ''__proto__'' then proto obj else map_of (own obj) k)"

definition obj_modify :: "'v jsobject \<Rightarrow> jsstring \<Rightarrow> ('v \<Rightarrow> 'v) \<Rightarrow> 'v jsobject" where
  "obj_modify obj k f =
     (if k = js ''__proto__'' then obj\<lparr>proto := map_option f (proto obj)\<rparr>
      else obj\<lparr>own := AList.map_entry k f (own obj)\<rparr>)"

definition Object_keys :: "'v jsobject \<Rightarrow> jsstring list" where
  "Object_keys obj = map fst (own obj)"

text \<open>\<^verbatim>\<open>x || d\<close> on a string that may be absent, and on a number that may be absent.\<close>

definition or_string :: "jsstring option \<Rightarrow> jsstring \<Rightarrow> jsstring" where
  "or_string x d = (case x of None \<Rightarrow> d | Some s \<Rightarrow> if s = [] then d else s)"

definition or_number :: "nat option \<Rightarrow> nat \<Rightarrow> nat" where
  "or_number x d = (case x of None \<Rightarrow> d | Some n \<Rightarrow> if n = 0 then d else n)"

text \<open>
  The record of a package whose registry request resolved with status 200. A
  \<open>latestVersion\<close> that is undefined indexes \<open>time\<close> and \<open>versions\<close> as the key
  \<^verbatim>\<open>"undefined"\<close>.
\<close>

definition fetched :: "jsstring \<Rightarrow> registry_data \<Rightarrow> package_metadata" where
  "fetched packageName data =
     (let latestVersion = data_dist_tags_latest data;
          key = (case latestVersion of None \<Rightarrow> js ''undefined'' | Some v \<Rightarrow> v)
      in \<lparr>name = packageName,
          description = or_string (data_description data) [],
          version = or_string latestVersion [],
          license = Some (or_string (data_license data) (js ''Unknown'')),
          homepage = Some (or_string (data_homepage data) []),
          repository = Some (or_string (data_repository_url data) []),
          maintainers = Some (or_number (data_maintainers_length data) 0),
          lastPublished =
            Some (or_string (case data_time data of None \<Rightarrow> None | Some t \<Rightarrow> map_of t key) []),
          dependencies =
            Some (case data_versions data of
                    None \<Rightarrow> []
                  | Some vs \<Rightarrow>
                      (case map_of vs key of
                         None \<Rightarrow> []
                       | Some None \<Rightarrow> []
                       | Some (Some deps) \<Rightarrow> deps)),
          weeklyDownloads = Some 0,
          alternatives = Some [],
          error = None\<rparr>)"

text \<open>The record stored by the outer \<^verbatim>\<open>catch\<close>.\<close>

definition degraded :: "jsstring \<Rightarrow> js_error \<Rightarrow> package_metadata" where
  "degraded packageName e =
     \<lparr>name = packageName,
      description = js ''Could not fetch package data'',
      version = [],
      license = None, homepage = None, repository = None, maintainers = None,
      lastPublished = None, dependencies = None, weeklyDownloads = None,
      alternatives = None,
      error = Some (errorString e)\<rparr>"

text \<open>
  \<^verbatim>\<open>packageNames.map\<close> starts one \<^verbatim>\<open>async\<close> body per name; every body runs to its
  first \<^verbatim>\<open>await\<close>, so that all registry requests are sent at once. From then on a
  body runs when the response it awaits arrives, alone and up to its next
  \<^verbatim>\<open>await\<close> or its end, and the bodies share \<open>packageData\<close>. A task is a body with
  the point where it waits.
\<close>

datatype phase = AwaitingRegistry | AwaitingDownloads | Settled

record fetch_state =
  packageData :: "package_metadata jsobject"
  requests :: "request set"
  tasks :: "(jsstring \<times> phase) list"

definition started :: "jsstring list \<Rightarrow> fetch_state" where
  "started packageNames =
     \<lparr>packageData = empty_object,
      requests = RegistryGet ` set packageNames,
      tasks = map (\<lambda>packageName. (packageName, AwaitingRegistry)) packageNames\<rparr>"

definition wait :: "fetch_state \<Rightarrow> nat \<Rightarrow> phase \<Rightarrow> fetch_state" where
  "wait st i ph = st\<lparr>tasks := (tasks st)[i := (fst (tasks st ! i), ph)]\<rparr>"

text \<open>
  The body of task \<open>i\<close> from the arrival of the registry response to the second
  \<^verbatim>\<open>await\<close>. A rejection is caught by the outer \<^verbatim>\<open>catch\<close>, and so is the TypeError of
  reading a member of a null body. A status other than 200 stores nothing.
\<close>

definition registry_arrived :: "network \<Rightarrow> fetch_state \<Rightarrow> nat \<Rightarrow> jsstring \<Rightarrow> fetch_state" where
  "registry_arrived net st i packageName =
     (case registry net packageName of
        Rejected e \<Rightarrow>
          wait (st\<lparr>packageData := obj_assign (packageData st) packageName (degraded packageName e)\<rparr>)
            i Settled
      | Resolved status body \<Rightarrow>
          if status = 200 then
            (case body of
               None \<Rightarrow>
                 wait (st\<lparr>packageData := obj_assign (packageData st) packageName
                         (degraded packageName
                           (Error (js ''Cannot read properties of null (reading 'dist-tags')'')))\<rparr>)
                   i Settled
             | Some data \<Rightarrow>
                 wait (st\<lparr>packageData := obj_assign (packageData st) packageName (fetched packageName data),
                          requests := insert (DownloadsGet packageName) (requests st)\<rparr>)
                   i AwaitingDownloads)
          else wait st i Settled)"

text \<open>
  The rest of the body, from the arrival of the download count: the inner
  \<^verbatim>\<open>try\<close>. Every failure in it, a null body included, is caught and leaves
  \<open>weeklyDownloads\<close> as it is.
\<close>

definition downloads_arrived :: "network \<Rightarrow> fetch_state \<Rightarrow> nat \<Rightarrow> jsstring \<Rightarrow> fetch_state" where
  "downloads_arrived net st i packageName =
     (case downloads_api net packageName of
        Rejected e \<Rightarrow> wait st i Settled
      | Resolved status body \<Rightarrow>
          if status = 200 then
            (case body of
               None \<Rightarrow> wait st i Settled
             | Some data \<Rightarrow>
                 wait (st\<lparr>packageData := obj_modify (packageData st) packageName
                         (\<lambda>r. r\<lparr>weeklyDownloads := Some (or_number (data_downloads data) 0)\<rparr>)\<rparr>)
                   i Settled)
          else wait st i Settled)"

text \<open>The arrival of the response that task \<open>i\<close> awaits.\<close>

definition resume :: "network \<Rightarrow> fetch_state \<Rightarrow> nat \<Rightarrow> fetch_state" where
  "resume net st i =
     (if i < length (tasks st) then
        (case tasks st ! i of
           (packageName, AwaitingRegistry) \<Rightarrow> registry_arrived net st i packageName
         | (packageName, AwaitingDownloads) \<Rightarrow> downloads_arrived net st i packageName
         | (packageName, Settled) \<Rightarrow> st)
      else st)"

text \<open>The fixed table of the enrichment, as the chain of comparisons.\<close>

definition alternatives_for :: "jsstring \<Rightarrow> jsstring list" where
  "alternatives_for packageName =
     (if packageName = js ''moment'' then [js ''date-fns'', js ''dayjs'', js ''luxon'']
      else if packageName = js ''lodash'' \<or> packageName = js ''underscore'' then [js ''lodash-es'', js ''ramda'']
      else if packageName = js ''request'' then [js ''axios'', js ''node-fetch'', js ''got'']
      else if packageName = js ''jquery'' then [js ''cash-dom'', js ''umbrella'']
      else [])"

definition enrich :: "package_metadata jsobject \<Rightarrow> package_metadata jsobject" where
  "enrich obj =
     foldl (\<lambda>obj packageName.
              obj_modify obj packageName (\<lambda>r. r\<lparr>alternatives := Some (alternatives_for packageName)\<rparr>))
       obj (Object_keys obj)"

text \<open>
  \<open>arrivals\<close> is the order in which the responses arrive, each named by the index
  of the task that awaits it. \<^verbatim>\<open>Promise.all\<close> resolves once every task is settled,
  and the enrichment runs then; \<open>None\<close> is a fetch that some response never reaches.
  The function returns \<open>packageData\<close>; the requests sent travel with it here. The
  keys of \<open>packageData\<close> are listed as the arrivals created them; JavaScript lists
  a key that is an array index before the others, and the statements below read the
  keys as a set.
\<close>

definition arrive :: "network \<Rightarrow> nat list \<Rightarrow> jsstring list \<Rightarrow> fetch_state" where
  "arrive net arrivals packageNames = foldl (resume net) (started packageNames) arrivals"

definition fetchNpmMetadata :: "network \<Rightarrow> nat list \<Rightarrow> jsstring list \<Rightarrow> fetch_state option" where
  "fetchNpmMetadata net arrivals packageNames =
     (let settled = arrive net arrivals packageNames
      in if list_all (\<lambda>task. snd task = Settled) (tasks settled)
         then Some (settled\<lparr>packageData := enrich (packageData settled)\<rparr>)
         else None)"

section \<open>The three commands\<close>

text \<open>
  What a command did for its caller: the message it showed, or the call of
  \<open>displayPackageAnalysis\<close> with its two arguments, or nothing; with it, the
  requests sent. An error that reaches the \<^verbatim>\<open>try\<close> of a command is shown with the
  prefix of the command. A command whose fetch never resolves stays pending.
\<close>

datatype outcome =
    showInformationMessage jsstring
  | showErrorMessage jsstring
  | displayPackageAnalysis ProjectAnalysis "package_metadata jsobject"
  | nothing_shown
  | pending

text \<open>
  \<open>generateAnalysisHTML\<close> counts the uses first, and then renders one card for each
  key of \<open>packageUsage\<close>, from its count, its files and its entry of the fetched data
  or a default record. The rendering reads own entries and concatenates strings; the
  fold is the step of it that throws. The page is kept here as the usage index that it
  is rendered from.
\<close>

definition generateAnalysisHTML :: "ProjectAnalysis \<Rightarrow> package_metadata jsobject \<Rightarrow> js_error + (jsstring \<times> usage) list" where
  "generateAnalysisHTML analysis fetchedData = packageUsage (packageImports analysis)"

text \<open>
  The part the three commands share, from the fetch on. \<open>displayPackageAnalysis\<close>
  creates the panel and then assigns it the page. When \<open>generateAnalysisHTML\<close> throws,
  the panel stays without a page and the error reaches the \<^verbatim>\<open>catch\<close> of the command,
  which shows it after \<open>errorPrefix\<close>; the outcome \<open>displayPackageAnalysis\<close> is the call
  that returned.
\<close>

definition fetch_and_display :: "jsstring \<Rightarrow> network \<Rightarrow> nat list \<Rightarrow> jsstring list \<Rightarrow> ProjectAnalysis \<Rightarrow> outcome \<times> request set" where
  "fetch_and_display errorPrefix net arrivals packages analysis =
     (case fetchNpmMetadata net arrivals packages of
        None \<Rightarrow> (pending, requests (arrive net arrivals packages))
      | Some fetched_state \<Rightarrow>
          (case generateAnalysisHTML analysis (packageData fetched_state) of
             Inl e \<Rightarrow> (showErrorMessage (errorPrefix @ errorString e), requests fetched_state)
           | Inr html \<Rightarrow>
               (displayPackageAnalysis analysis (packageData fetched_state), requests fetched_state)))"

text \<open>
  The active editor: the path of its document, \<^verbatim>\<open>path.extname\<close> of that path, and
  the node found at the path.
\<close>

record editor =
  fsPath :: jsstring
  extname :: jsstring
  document :: fsnode

definition analyzeCurrentFileCommand :: "network \<Rightarrow> nat list \<Rightarrow> editor option \<Rightarrow> outcome \<times> request set" where
  "analyzeCurrentFileCommand net arrivals activeEditor =
     (case activeEditor of
        None \<Rightarrow> (showInformationMessage (js ''No active file to analyze''), {})
      | Some ed \<Rightarrow>
          (let filePath = fsPath ed in
           if extname ed \<notin> set [js ''.js'', js ''.jsx'', js ''.ts'', js ''.tsx''] then
             (showInformationMessage (js ''Current file is not a JavaScript or TypeScript file''), {})
           else
             (case analyzeFileImports (readFileSync (document ed)) of
                Inl e \<Rightarrow> (showErrorMessage (js ''Error analyzing current file: '' @ errorString e), {})
              | Inr imports \<Rightarrow>
                  if length imports = 0 then
                    (showInformationMessage (js ''No npm packages found in the current file''), {})
                  else
                    fetch_and_display (js ''Error analyzing current file: '') net arrivals imports
                      \<lparr>structure = [],
                        packageImports = AList.update filePath imports [],
                        suggestedAnalysis = [filePath]\<rparr>)))"

text \<open>
  The \<^verbatim>\<open>forEach\<close> over the selected files. No \<^verbatim>\<open>try\<close> surrounds \<open>analyzeFileImports\<close>
  here, so that a file that cannot be read ends the loop with its error.
\<close>

fun scan_selected :: "(jsstring \<times> jsstring list) list \<Rightarrow> (jsstring \<times> fsnode) list \<Rightarrow> js_error + (jsstring \<times> jsstring list) list" where
  "scan_selected fileImports [] = Inr fileImports"
| "scan_selected fileImports (selected # rest) =
     (case analyzeFileImports (readFileSync (snd selected)) of
        Inl e \<Rightarrow> Inl e
      | Inr imports \<Rightarrow>
          scan_selected
            (if length imports > 0 then AList.update (fst selected) imports fileImports
             else fileImports)
            rest)"

text \<open>
  \<open>found\<close> is the result of \<^verbatim>\<open>findFiles\<close>; \<open>selectedFiles\<close> is the result of the quick
  pick, \<open>None\<close> when it was dismissed, each picked path with the node found there.
\<close>

definition analyzeSelectedFilesCommand :: "network \<Rightarrow> nat list \<Rightarrow> jsstring list \<Rightarrow> (jsstring \<times> fsnode) list option \<Rightarrow> outcome \<times> request set" where
  "analyzeSelectedFilesCommand net arrivals found selectedFiles =
     (if length found = 0 then
        (showInformationMessage (js ''No JavaScript/TypeScript files found in workspace''), {})
      else
        (case selectedFiles of
           None \<Rightarrow> (nothing_shown, {})
         | Some selected \<Rightarrow>
             if length selected = 0 then (nothing_shown, {})
             else
               (case scan_selected [] selected of
                  Inl e \<Rightarrow> (showErrorMessage (js ''Error analyzing files: '' @ errorString e), {})
                | Inr fileImports \<Rightarrow>
                    (let uniquePackages = extractUniquePackages fileImports in
                     if length uniquePackages = 0 then
                       (showInformationMessage (js ''No npm packages found in selected files''), {})
                     else
                       fetch_and_display (js ''Error analyzing files: '') net arrivals uniquePackages
                         \<lparr>structure = [],
                           packageImports = fileImports,
                           suggestedAnalysis = map fst fileImports\<rparr>))))"

text \<open>
  \<open>disk\<close> gives the node found at a path. Without a selected resource the first
  workspace folder is the target.
\<close>

definition analyzeProjectCommand :: "network \<Rightarrow> nat list \<Rightarrow> jsstring list option \<Rightarrow> (jsstring \<Rightarrow> fsnode) \<Rightarrow> jsstring option \<Rightarrow> outcome \<times> request set" where
  "analyzeProjectCommand net arrivals workspaceFolders disk selectedResource =
     (case (case selectedResource of
              Some selected \<Rightarrow> Some selected
            | None \<Rightarrow>
                (case workspaceFolders of
                   None \<Rightarrow> None
                 | Some [] \<Rightarrow> None
                 | Some (folder # others) \<Rightarrow> Some folder)) of
        None \<Rightarrow> (showErrorMessage (js ''Please select a folder to analyze''), {})
      | Some targetPath \<Rightarrow>
          (case analyzeProjectStructure targetPath (disk targetPath) of
             Inl e \<Rightarrow> (showErrorMessage (js ''Error analyzing project: '' @ errorString e), {})
           | Inr analysis \<Rightarrow>
               (let uniquePackages = extractUniquePackages (packageImports analysis) in
                if length uniquePackages = 0 then
                  (showInformationMessage (js ''No npm packages found in the project''), {})
                else fetch_and_display (js ''Error analyzing project: '') net arrivals
                       uniquePackages analysis)))"

section \<open>Notions used in the statements\<close>

text \<open>
  The specifiers the extractor captures: for every match of the first pass, the
  group of the second pass over it (the value of \<^verbatim>\<open>regexResult[1]\<close>), for the three
  patterns in the order of the code.
\<close>

definition captures :: "(jsstring \<Rightarrow> (jsstring \<times> jsstring) option) \<Rightarrow> (jsstring \<Rightarrow> (jsstring \<times> jsstring) option) \<Rightarrow> jsstring \<Rightarrow> jsstring list" where
  "captures re_g re content =
     concat (map (\<lambda>m. case exec re m of None \<Rightarrow> [] | Some (m', pkg) \<Rightarrow> [pkg]) (match_g re_g content))"

definition captured_specifiers :: "jsstring \<Rightarrow> jsstring list" where
  "captured_specifiers content =
     captures require_regex require_regex content @
     captures import_regex from_regex content @
     captures dynamic_import_regex dynamic_import_regex content"

definition relative :: "jsstring \<Rightarrow> bool" where
  "relative pkg \<longleftrightarrow> startsWith pkg (js ''.'') \<or> startsWith pkg (js ''/'')"

definition package_name :: "jsstring \<Rightarrow> bool" where
  "package_name p \<longleftrightarrow> p \<noteq> [] \<and> \<not> relative p"

text \<open>The base name the extractor keeps of a specifier: its first segment.\<close>

definition base_name :: "jsstring \<Rightarrow> jsstring" where
  "base_name pkg = takeWhile (\<lambda>c. c \<noteq> 0x2F) pkg"

text \<open>The assignment of the enrichment to one entry.\<close>

definition suggest :: "jsstring \<Rightarrow> package_metadata \<Rightarrow> package_metadata" where
  "suggest packageName r = r\<lparr>alternatives := Some (alternatives_for packageName)\<rparr>"

text \<open>
  What every arrival preserves for a package \<open>p\<close> whose registry request is rejected
  with \<open>e\<close>: no task of \<open>p\<close> awaits a download count, no download count was requested
  for \<open>p\<close>, and once a task of \<open>p\<close> is settled the entry of \<open>p\<close> is the degraded
  record. \<open>rank\<close> counts the responses a task still awaits at most.
\<close>

definition untouched :: "jsstring \<Rightarrow> js_error \<Rightarrow> fetch_state \<Rightarrow> bool" where
  "untouched p e st \<longleftrightarrow>
     (\<forall>task \<in> set (tasks st). fst task = p \<longrightarrow> snd task \<noteq> AwaitingDownloads) \<and>
     DownloadsGet p \<notin> requests st \<and>
     ((\<exists>task \<in> set (tasks st). fst task = p \<and> snd task = Settled) \<longrightarrow>
        obj_get (packageData st) p = Some (degraded p e))"

fun rank :: "phase \<Rightarrow> nat" where
  "rank AwaitingRegistry = 2"
| "rank AwaitingDownloads = 1"
| "rank Settled = 0"

text \<open>
  The files a walk analyses, each with its path and its node: below every kept
  directory of a listing, then the kept files of the listing itself.
\<close>

function visited :: "jsstring \<Rightarrow> fsnode \<Rightarrow> (jsstring \<times> fsnode) list" where
  "visited targetPath (Directory allEntries) =
     concat (map (\<lambda>d. visited (path_join targetPath (fst d)) (snd d)) (list_directories allEntries)) @
     map (\<lambda>entry. (path_join targetPath (fst entry), snd entry)) (list_files allEntries)"
| "visited targetPath (Inaccessible e) = []"
| "visited targetPath (File c) = []"
| "visited targetPath (UnreadableDirectory e) = []"
  by pat_completeness auto
termination
proof (relation "measure (\<lambda>(targetPath, node). size node)")
  fix targetPath :: jsstring and allEntries :: "(jsstring \<times> fsnode) list" and d
  assume "d \<in> set (list_directories allEntries)"
  then have "d \<in> set allEntries" by (simp add: list_directories_def)
  then have "size (snd d) \<le> size_list (\<lambda>d. size (snd d)) allEntries"
    by (induction allEntries) auto
  moreover have "size_list (\<lambda>d. size (snd d)) allEntries
      \<le> size_list (size_prod (\<lambda>x. 0) size) allEntries"
    by (induction allEntries) auto
  ultimately show "((path_join targetPath (fst d), snd d), (targetPath, Directory allEntries))
      \<in> measure (\<lambda>(targetPath, node). size node)"
    by simp
qed simp

text \<open>
  A listing of a real directory names every entry once, and no name holds the
  separator.
\<close>

fun well_formed :: "fsnode \<Rightarrow> bool" where
  "well_formed (Directory allEntries) =
     (distinct (map fst allEntries) \<and>
      list_all (\<lambda>entry. 0x2F \<notin> set (fst entry) \<and> well_formed (snd entry)) allEntries)"
| "well_formed node = True"

definition many_imports :: "fsnode \<Rightarrow> bool" where
  "many_imports node =
     (case analyzeFileImports (readFileSync node) of
        Inl e \<Rightarrow> False
      | Inr imports \<Rightarrow> length imports > 3)"

definition first_name :: "jsstring \<Rightarrow> jsstring \<Rightarrow> jsstring" where
  "first_name p f = takeWhile (\<lambda>c. c \<noteq> 0x2F) (drop (Suc (length p)) f)"

text \<open>
  The number of times the import lists name a package; the effect of that many
  increments on a count that may be absent; the lists that name a member of
  \<^verbatim>\<open>Object.prototype\<close>.
\<close>

definition references :: "(jsstring \<times> jsstring list) list \<Rightarrow> jsstring \<Rightarrow> nat" where
  "references fileImports pkg = sum_list (map (\<lambda>entry. count_list (snd entry) pkg) fileImports)"

definition bump :: "nat \<Rightarrow> nat option \<Rightarrow> nat option" where
  "bump n c = (case c of None \<Rightarrow> if n = 0 then None else Some n | Some m \<Rightarrow> Some (m + n))"

definition inherited :: "jsstring list \<Rightarrow> bool" where
  "inherited pkgs \<longleftrightarrow> (\<exists>pkg \<in> set pkgs. pkg \<in> set Object_prototype_keys)"

definition TypeError_push :: js_error where
  "TypeError_push = Error (js ''Cannot read properties of undefined (reading 'push')'')"

definition any_inherited :: "(jsstring \<times> jsstring list) list \<Rightarrow> bool" where
  "any_inherited fileImports \<longleftrightarrow> (\<exists>entry \<in> set fileImports. inherited (snd entry))"


section \<open>Sample inputs\<close>

text \<open>
  A registry that knows \<^verbatim>\<open>moment\<close> and answers 404, which \<^verbatim>\<open>axios\<close> turns into a
  rejection, for every other name.
\<close>

definition registry_down :: network where
  "registry_down =
     \<lparr>registry = (\<lambda>packageName.
         if packageName = js ''moment'' then
           Resolved 200 (Some \<lparr>data_dist_tags_latest = Some (js ''2.30.1''), data_description = None,
             data_license = Some (js ''MIT''), data_homepage = None, data_repository_url = None,
             data_maintainers_length = Some 5, data_time = None, data_versions = None\<rparr>)
         else Rejected (Error (js ''Request failed with status code 404''))),
      downloads_api = (\<lambda>packageName. Resolved 200 (Some \<lparr>data_downloads = Some 1000\<rparr>))\<rparr>"


definition scoped_js :: jsstring where
  \<open>scoped_js = js ''require("pkg")\<newline>import x from "pkg/sub"\<newline>import("@scope/pkg")''\<close>

definition relative_js :: jsstring where
  \<open>relative_js = js ''require("./a")\<newline>import x from "/abs/b"\<newline>import("../c")''\<close>

definition big_js :: jsstring where
  \<open>big_js = js ''require("a")require("b")require("c")require("d")''\<close>

definition small_js :: jsstring where
  \<open>small_js = js ''require("a")require("b")require("c")''\<close>


definition sample_project :: fsnode where
  "sample_project =
     Directory
       [(js ''src'', Directory [(js ''big.js'', File (Inr big_js))]),
        (js ''small.js'', File (Inr small_js))]"

definition locked_project :: fsnode where
  "locked_project =
     Directory
       [(js ''locked'', UnreadableDirectory (Error (js ''EACCES: permission denied, scandir''))),
        (js ''small.js'', File (Inr small_js))]"

definition missing_disk :: "jsstring \<Rightarrow> fsnode" where
  "missing_disk = (\<lambda>path. Inaccessible (Error (js ''ENOENT: no such file or directory, stat'')))"

definition empty_disk :: "jsstring \<Rightarrow> fsnode" where
  "empty_disk = (\<lambda>path. Directory [])"






definition sample_imports :: "(jsstring \<times> jsstring list) list" where
  "sample_imports =
     [(js ''/w/a.ts'', [js ''lodash'']), (js ''/w/b.js'', [js ''lodash'', js ''react''])]"

section \<open>The import extractor\<close>

lemma split_Cons_other:
  "c \<noteq> sep \<Longrightarrow> \<exists>seg segs. split (c # cs) sep = (c # seg) # segs"
  by (cases "split cs sep") auto

lemma add_import_relative:
  assumes "\<forall>pkg. (\<exists>m'. exec re m = Some (m', pkg)) \<longrightarrow> relative pkg"
  shows "add_import re imports m = imports"
  using assms by (auto simp: add_import_def relative_def split: option.splits list.splits)

lemma foldl_add_import_relative:
  assumes "\<forall>m \<in> set ms. \<forall>pkg. (\<exists>m'. exec re m = Some (m', pkg)) \<longrightarrow> relative pkg"
  shows "foldl (add_import re) acc ms = acc"
  using assms by (induction ms arbitrary: acc) (simp_all add: add_import_relative)

lemma scan_relative:
  assumes "\<forall>pkg \<in> set (captures re_g re content). relative pkg"
  shows "scan re_g re content imports = imports"
  unfolding scan_def
proof (rule foldl_add_import_relative, intro ballI allI impI)
  fix m pkg assume m: "m \<in> set (match_g re_g content)" and "\<exists>m'. exec re m = Some (m', pkg)"
  then obtain m' where "exec re m = Some (m', pkg)" by blast
  with m have "pkg \<in> set (captures re_g re content)"
    by (force simp: captures_def)
  with assms show "relative pkg" by blast
qed

lemma relative_Cons: "relative (c # s) \<longleftrightarrow> c = 0x2E \<or> c = 0x2F"
  by (auto simp: relative_def startsWith_def js_def)

lemma relative_Nil: "\<not> relative []"
  by (simp add: relative_def startsWith_def js_def)

lemma add_import_names:
  assumes "\<forall>p \<in> set imports. package_name p"
  shows "\<forall>p \<in> set (add_import re imports m). package_name p"
proof (cases "exec re m")
  case None
  with assms show ?thesis by (simp add: add_import_def)
next
  case (Some r)
  obtain m' pkg where r: "r = (m', pkg)" by (cases r)
  show ?thesis
  proof (cases "pkg = [] \<or> relative pkg")
    case True
    with Some r assms show ?thesis
      by (auto simp: add_import_def relative_def)
  next
    case False
    then obtain c cs where pkg: "pkg = c # cs" by (cases pkg) auto
    with False have c: "c \<noteq> 0x2E" "c \<noteq> 0x2F" by (auto simp: relative_Cons)
    from split_Cons_other [OF c(2), of cs] obtain seg segs
      where sp: "split (c # cs) 0x2F = (c # seg) # segs" by blast
    have "package_name (c # seg)" using c by (simp add: package_name_def relative_Cons)
    with Some r pkg sp False assms show ?thesis
      by (auto simp: add_import_def relative_def set_add_def)
  qed
qed

lemma scan_names:
  assumes "\<forall>p \<in> set acc. package_name p"
  shows "\<forall>p \<in> set (scan re_g re content acc). package_name p"
proof -
  have "\<forall>p \<in> set (foldl (add_import re) acc ms). package_name p" for ms
    using assms by (induction ms rule: rev_induct) (simp_all add: add_import_names)
  then show ?thesis by (simp add: scan_def)
qed

lemma add_import_distinct: "distinct imports \<Longrightarrow> distinct (add_import re imports m)"
  by (auto simp: add_import_def set_add_def split: option.splits list.splits)

lemma scan_distinct:
  assumes "distinct acc"
  shows "distinct (scan re_g re content acc)"
proof -
  have "distinct (foldl (add_import re) acc ms)" for ms
    using assms by (induction ms rule: rev_induct) (simp_all add: add_import_distinct)
  then show ?thesis by (simp add: scan_def)
qed

text \<open>The literals of the patterns and the sample files, as code units and as import lists.\<close>

lemmas regex_defs = require_regex_def dynamic_import_regex_def from_regex_def import_regex_def
  space_from_regex_def call_regex_def quoted_def is_quote_def is_line_terminator_def

lemmas extractor_defs = analyzeFileImports_def scan_def add_import_def startsWith_def set_add_def

lemma literals:
  "js ''require('' = [114, 101, 113, 117, 105, 114, 101, 40]"
  "js ''import('' = [105, 109, 112, 111, 114, 116, 40]"
  "js ''import '' = [105, 109, 112, 111, 114, 116, 32]"
  "js ''from '' = [102, 114, 111, 109, 32]"
  "js '' from '' = [32, 102, 114, 111, 109, 32]"
  "js ''.'' = [46]"
  "js ''/'' = [47]"
  by (simp_all add: js_def)

lemma big_js_imports: "analyzeFileImports (Inr big_js) = Inr [js ''a'', js ''b'', js ''c'', js ''d'']"
  by (simp add: big_js_def regex_defs extractor_defs js_def literals)

lemma small_js_imports: "analyzeFileImports (Inr small_js) = Inr [js ''a'', js ''b'', js ''c'']"
  by (simp add: small_js_def regex_defs extractor_defs js_def literals)


text \<open>
  C1. On a text holding \<^verbatim>\<open>require("pkg")\<close>, \<^verbatim>\<open>import x from "pkg/sub"\<close> and
  \<^verbatim>\<open>import("@scope/pkg")\<close> the extractor returns \<^verbatim>\<open>pkg\<close> and \<^verbatim>\<open>@scope\<close>: the
  sub-path is cut to the base name, and the scoped specifier is cut at its first
  separator as well, so that \<^verbatim>\<open>@scope/pkg\<close> is not among the results.
\<close>

theorem scoped_specifier_truncated:
  "analyzeFileImports (Inr scoped_js) = Inr [js ''pkg'', js ''@scope'']"
  by (simp add: scoped_js_def regex_defs extractor_defs js_def literals)

text \<open>
  C6. When every specifier the extractor captures from a text starts with a dot or
  a separator, the extractor returns nothing; and whatever the text, no returned
  name starts with a dot or a separator.
\<close>

theorem relative_specifiers_discarded:
  "((\<forall>pkg \<in> set (captured_specifiers content). startsWith pkg (js ''.'') \<or> startsWith pkg (js ''/'')) \<longrightarrow>
     analyzeFileImports (Inr content) = Inr []) \<and>
   (\<forall>imports. analyzeFileImports (Inr content) = Inr imports \<longrightarrow>
      (\<forall>p \<in> set imports. \<not> startsWith p (js ''.'') \<and> \<not> startsWith p (js ''/'')))"
proof (intro conjI impI allI)
  assume "\<forall>pkg \<in> set (captured_specifiers content). startsWith pkg (js ''.'') \<or> startsWith pkg (js ''/'')"
  then have "\<forall>pkg \<in> set (captured_specifiers content). relative pkg"
    by (simp add: relative_def)
  then show "analyzeFileImports (Inr content) = Inr []"
    by (simp add: analyzeFileImports_def captured_specifiers_def scan_relative)
next
  fix found assume "analyzeFileImports (Inr content) = Inr found"
  then have found: "found = scan dynamic_import_regex dynamic_import_regex content
      (scan import_regex from_regex content (scan require_regex require_regex content []))"
    by (simp add: analyzeFileImports_def)
  have "\<forall>p \<in> set (scan require_regex require_regex content []). package_name p"
    by (rule scan_names) simp
  then have "\<forall>p \<in> set (scan import_regex from_regex content
      (scan require_regex require_regex content [])). package_name p"
    by (rule scan_names)
  then have "\<forall>p \<in> set found. package_name p"
    unfolding found by (rule scan_names)
  then show "\<forall>p \<in> set found. \<not> startsWith p (js ''.'') \<and> \<not> startsWith p (js ''/'')"
    by (simp add: package_name_def relative_def)
qed

theorem relative_specifiers_discarded_witness:
  "captured_specifiers relative_js = [js ''./a'', js ''/abs/b'', js ''../c''] \<and>
   analyzeFileImports (Inr relative_js) = Inr [] \<and>
   analyzeFileImports (Inr small_js) = Inr [js ''a'', js ''b'', js ''c''] \<and>
   \<not> startsWith (js ''a'') (js ''.'') \<and> \<not> startsWith (js ''a'') (js ''/'')"
proof -
  have caps: "captured_specifiers relative_js = [js ''./a'', js ''/abs/b'', js ''../c'']"
    by (simp add: relative_js_def captured_specifiers_def captures_def regex_defs js_def literals)
  have rel: "\<forall>pkg \<in> set (captured_specifiers relative_js).
      startsWith pkg (js ''.'') \<or> startsWith pkg (js ''/'')"
    unfolding caps by (simp add: startsWith_def js_def)
  with relative_specifiers_discarded [of relative_js]
  have none: "analyzeFileImports (Inr relative_js) = Inr []" by blast
  from relative_specifiers_discarded [of small_js] small_js_imports
  have "\<forall>p \<in> set [js ''a'', js ''b'', js ''c'']. \<not> startsWith p (js ''.'') \<and> \<not> startsWith p (js ''/'')"
    by blast
  then have "\<not> startsWith (js ''a'') (js ''.'') \<and> \<not> startsWith (js ''a'') (js ''/'')"
    by simp
  with caps none small_js_imports show ?thesis by blast
qed

text \<open>The names a scan adds are the base names of the specifiers it captures and keeps.\<close>

lemma split_head: "\<exists>segs. split s sep = takeWhile (\<lambda>c. c \<noteq> sep) s # segs"
  by (induction s) (auto split: list.splits)

lemma set_set_add: "set (set_add s x) = insert x (set s)"
  by (auto simp: set_add_def)

lemma add_import_set:
  "set (add_import re acc m) =
     set acc \<union> base_name ` {pkg. (\<exists>m'. exec re m = Some (m', pkg)) \<and> pkg \<noteq> [] \<and> \<not> relative pkg}"
proof (cases "exec re m")
  case None
  then show ?thesis by (simp add: add_import_def)
next
  case (Some r)
  obtain m' pkg where r: "r = (m', pkg)" by (cases r)
  from split_head [of pkg "0x2F"] obtain segs where sp: "split pkg 0x2F = base_name pkg # segs"
    by (auto simp: base_name_def)
  show ?thesis
  proof (cases "pkg \<noteq> [] \<and> \<not> relative pkg")
    case True
    then have added: "add_import re acc m = set_add acc (base_name pkg)"
      using Some r sp by (simp add: add_import_def relative_def)
    from True Some r
    have one: "{p. (\<exists>m''. exec re m = Some (m'', p)) \<and> p \<noteq> [] \<and> \<not> relative p} = {pkg}"
      by auto
    show ?thesis unfolding added one by (simp add: set_set_add)
  next
    case False
    then have same: "add_import re acc m = acc"
      using Some r by (auto simp: add_import_def relative_def)
    from False Some r
    have none: "{p. (\<exists>m''. exec re m = Some (m'', p)) \<and> p \<noteq> [] \<and> \<not> relative p} = {}"
      by auto
    show ?thesis unfolding same none by simp
  qed
qed

lemma captures_set:
  "set (captures re_g re content) = {pkg. \<exists>m \<in> set (match_g re_g content). \<exists>m'. exec re m = Some (m', pkg)}"
proof -
  have one: "set (case exec re m of None \<Rightarrow> [] | Some (m', p) \<Rightarrow> [p]) = {pkg. \<exists>m'. exec re m = Some (m', pkg)}"
    for m
    by (cases "exec re m") auto
  have "set (captures re_g re content) =
      (\<Union>m \<in> set (match_g re_g content). {pkg. \<exists>m'. exec re m = Some (m', pkg)})"
    unfolding captures_def set_concat set_map image_image one ..
  then show ?thesis by blast
qed

lemma scan_set:
  "set (scan re_g re content acc) =
     set acc \<union> base_name ` {pkg \<in> set (captures re_g re content). pkg \<noteq> [] \<and> \<not> relative pkg}"
proof -
  have "set (foldl (add_import re) acc ms) =
      set acc \<union> base_name ` {pkg. (\<exists>m \<in> set ms. \<exists>m'. exec re m = Some (m', pkg)) \<and> pkg \<noteq> [] \<and> \<not> relative pkg}"
    for ms
  proof (induction ms rule: rev_induct)
    case Nil
    then show ?case by simp
  next
    case (snoc m ms)
    have "{pkg. (\<exists>x \<in> set (ms @ [m]). \<exists>m'. exec re x = Some (m', pkg)) \<and> pkg \<noteq> [] \<and> \<not> relative pkg} =
        {pkg. (\<exists>x \<in> set ms. \<exists>m'. exec re x = Some (m', pkg)) \<and> pkg \<noteq> [] \<and> \<not> relative pkg} \<union>
        {pkg. (\<exists>m'. exec re m = Some (m', pkg)) \<and> pkg \<noteq> [] \<and> \<not> relative pkg}"
      by auto
    then show ?case
      unfolding foldl_append foldl_Cons foldl_Nil add_import_set snoc.IH
      by (simp add: image_Un Un_assoc)
  qed
  then show ?thesis by (simp add: scan_def captures_set)
qed

text \<open>
  C7. For every text the extractor returns a list of names, without repetition: no
  text makes it throw. The names are the base names of the captured specifiers that
  do not start with a dot or a separator, and nothing else of the text counts.
\<close>

theorem analyzeFileImports_total:
  "\<exists>pkgs. analyzeFileImports (Inr content) = Inr pkgs \<and> distinct pkgs \<and>
      set pkgs = base_name ` {pkg \<in> set (captured_specifiers content). pkg \<noteq> [] \<and> \<not> relative pkg}"
proof -
  have "set (scan dynamic_import_regex dynamic_import_regex content
          (scan import_regex from_regex content (scan require_regex require_regex content []))) =
      base_name ` {pkg \<in> set (captured_specifiers content). pkg \<noteq> [] \<and> \<not> relative pkg}"
    unfolding scan_set captured_specifiers_def by auto
  then show ?thesis by (simp add: analyzeFileImports_def scan_distinct)
qed

section \<open>The metadata fetcher\<close>

lemma obj_get_assign:
  "obj_get (obj_assign obj k v) p = (if p = k then Some v else obj_get obj p)"
  by (auto simp: obj_get_def obj_assign_def update_conv')

lemma obj_get_modify:
  "obj_get (obj_modify obj k f) p = (if p = k then map_option f (obj_get obj p) else obj_get obj p)"
  by (auto simp: obj_get_def obj_modify_def map_of_map_entry split: option.splits)

lemma keys_assign:
  "set (Object_keys (obj_assign obj k v)) =
     (if k = js ''__proto__'' then set (Object_keys obj) else insert k (set (Object_keys obj)))"
  by (simp add: Object_keys_def obj_assign_def dom_update)

lemma keys_modify: "set (Object_keys (obj_modify obj k f)) = set (Object_keys obj)"
  by (simp add: Object_keys_def obj_modify_def dom_map_entry)

text \<open>What one arrival changes.\<close>

lemma wait_simps:
  "packageData (wait st i ph) = packageData st"
  "requests (wait st i ph) = requests st"
  "tasks (wait st i ph) = (tasks st)[i := (fst (tasks st ! i), ph)]"
  by (simp_all add: wait_def)

lemma registry_arrived_tasks:
  "\<exists>ph. ph \<noteq> AwaitingRegistry \<and>
     tasks (registry_arrived net st i p) = (tasks st)[i := (fst (tasks st ! i), ph)]"
  by (cases "registry net p")
     (auto simp: registry_arrived_def wait_simps split: option.splits)

lemma downloads_arrived_tasks:
  "tasks (downloads_arrived net st i p) = (tasks st)[i := (fst (tasks st ! i), Settled)]"
  by (cases "downloads_api net p")
     (auto simp: downloads_arrived_def wait_simps split: option.splits)

lemma resume_names: "map fst (tasks (resume net st i)) = map fst (tasks st)"
proof (cases "i < length (tasks st)")
  case False
  then show ?thesis by (simp add: resume_def)
next
  case True
  obtain p ph where t: "tasks st ! i = (p, ph)" by (cases "tasks st ! i")
  have upd: "map fst ((tasks st)[i := (fst (tasks st ! i), ph')]) = map fst (tasks st)" for ph'
    by (simp add: map_update list_update_same_conv True)
  show ?thesis
    using registry_arrived_tasks [of net st i p] downloads_arrived_tasks [of net st i p] True t upd
    by (cases ph) (auto simp: resume_def)
qed

lemma arrive_names: "map fst (tasks (arrive net arrivals packageNames)) = packageNames"
proof -
  have "map fst (tasks (foldl (resume net) st arrivals)) = map fst (tasks st)" for st
    by (induction arrivals arbitrary: st) (simp_all add: resume_names)
  then show ?thesis by (simp add: arrive_def started_def comp_def)
qed

text \<open>The own keys of \<open>packageData\<close> never hold the key \<^verbatim>\<open>__proto__\<close>.\<close>

lemma resume_keys:
  assumes "js ''__proto__'' \<notin> set (Object_keys (packageData st))"
  shows "js ''__proto__'' \<notin> set (Object_keys (packageData (resume net st i)))"
proof (cases "i < length (tasks st)")
  case False
  with assms show ?thesis by (simp add: resume_def)
next
  case True
  obtain p ph where t: "tasks st ! i = (p, ph)" by (cases "tasks st ! i")
  have r: "js ''__proto__'' \<notin> set (Object_keys (packageData (registry_arrived net st i p)))"
    using assms by (cases "registry net p")
      (auto simp: registry_arrived_def wait_simps keys_assign split: option.splits if_splits)
  have d: "js ''__proto__'' \<notin> set (Object_keys (packageData (downloads_arrived net st i p)))"
    using assms by (cases "downloads_api net p")
      (auto simp: downloads_arrived_def wait_simps keys_modify split: option.splits if_splits)
  from True t r d assms show ?thesis by (cases ph) (simp_all add: resume_def)
qed

lemma arrive_keys: "js ''__proto__'' \<notin> set (Object_keys (packageData (arrive net arrivals packageNames)))"
proof -
  have "js ''__proto__'' \<notin> set (Object_keys (packageData st)) \<Longrightarrow>
      js ''__proto__'' \<notin> set (Object_keys (packageData (foldl (resume net) st arrivals)))" for st
    by (induction arrivals arbitrary: st) (simp_all add: resume_keys)
  then show ?thesis by (simp add: arrive_def started_def empty_object_def Object_keys_def)
qed

lemma enrich_fold_keys:
  "set (Object_keys (foldl (\<lambda>obj k. obj_modify obj k (suggest k)) obj ks)) = set (Object_keys obj)"
  by (induction ks arbitrary: obj) (simp_all add: keys_modify)

lemma enrich_fold_own:
  "js ''__proto__'' \<notin> set ks \<Longrightarrow>
   map_of (own (foldl (\<lambda>obj k. obj_modify obj k (suggest k)) obj ks)) p =
     (if p \<in> set ks then map_option (suggest p) (map_of (own obj) p) else map_of (own obj) p)"
proof (induction ks arbitrary: obj)
  case Nil
  then show ?case by simp
next
  case (Cons k ks)
  have idem: "suggest q (suggest q r) = suggest q r" for q r
    by (simp add: suggest_def)
  from Cons.prems have k: "k \<noteq> js ''__proto__''" and ks: "js ''__proto__'' \<notin> set ks" by auto
  have step: "map_of (own (obj_modify obj k (suggest k))) p =
      (if p = k then map_option (suggest k) (map_of (own obj) p) else map_of (own obj) p)"
    using k by (auto simp: obj_modify_def map_of_map_entry split: option.splits)
  show ?case
    using Cons.IH [OF ks, of "obj_modify obj k (suggest k)"] step
    by (auto simp: option.map_comp comp_def idem)
qed

lemma enrich_alt: "enrich obj = foldl (\<lambda>obj k. obj_modify obj k (suggest k)) obj (Object_keys obj)"
  by (simp add: enrich_def suggest_def [abs_def])

lemma enrich_keys: "set (Object_keys (enrich obj)) = set (Object_keys obj)"
  by (simp add: enrich_alt enrich_fold_keys)

lemma enrich_own:
  assumes "js ''__proto__'' \<notin> set (Object_keys obj)" and "p \<in> set (Object_keys obj)"
  shows "\<exists>r. map_of (own (enrich obj)) p = Some r \<and> alternatives r = Some (alternatives_for p)"
proof -
  from assms(2) obtain r where r: "map_of (own obj) p = Some r"
    by (auto simp: Object_keys_def dest: weak_map_of_SomeI)
  have "map_of (own (enrich obj)) p = Some (suggest p r)"
    using enrich_fold_own [OF assms(1), of obj p] assms(2) r by (simp add: enrich_alt)
  then show ?thesis by (simp add: suggest_def)
qed

lemma enrich_fold_get:
  "obj_get obj p = Some r \<Longrightarrow>
   \<exists>a. obj_get (foldl (\<lambda>obj k. obj_modify obj k (suggest k)) obj ks) p = Some (r\<lparr>alternatives := a\<rparr>)"
proof (induction ks arbitrary: obj r)
  case Nil
  then show ?case by (auto intro: exI [of _ "alternatives r"])
next
  case (Cons k ks)
  show ?case
  proof (cases "p = k")
    case True
    with Cons.prems have "obj_get (obj_modify obj k (suggest k)) p = Some (suggest k r)"
      by (simp add: obj_get_modify)
    from Cons.IH [OF this] obtain a
      where "obj_get (foldl (\<lambda>obj k. obj_modify obj k (suggest k)) (obj_modify obj k (suggest k)) ks) p
        = Some ((suggest k r)\<lparr>alternatives := a\<rparr>)"
      by blast
    moreover have "(suggest k r)\<lparr>alternatives := a\<rparr> = r\<lparr>alternatives := a\<rparr>"
      by (simp add: suggest_def)
    ultimately have "obj_get (foldl (\<lambda>obj k. obj_modify obj k (suggest k)) obj (k # ks)) p
        = Some (r\<lparr>alternatives := a\<rparr>)"
      by simp
    then show ?thesis by (rule exI)
  next
    case False
    with Cons.prems have "obj_get (obj_modify obj k (suggest k)) p = Some r"
      by (simp add: obj_get_modify)
    from Cons.IH [OF this] show ?thesis by simp
  qed
qed

lemma alternatives_table:
  "alternatives_for (js ''moment'') = [js ''date-fns'', js ''dayjs'', js ''luxon'']"
  "p \<notin> set [js ''moment'', js ''lodash'', js ''underscore'', js ''request'', js ''jquery''] \<Longrightarrow> alternatives_for p = []"
  by (simp_all add: alternatives_for_def)

lemma fetchNpmMetadata_Some:
  "fetchNpmMetadata net arrivals packageNames = Some result \<Longrightarrow>
   list_all (\<lambda>task. snd task = Settled) (tasks (arrive net arrivals packageNames)) \<and>
   result = (arrive net arrivals packageNames)
     \<lparr>packageData := enrich (packageData (arrive net arrivals packageNames))\<rparr>"
  by (auto simp: fetchNpmMetadata_def Let_def split: if_splits)

text \<open>Once both responses of every task have arrived, the fetch returns.\<close>

lemma resume_length: "length (tasks (resume net st i)) = length (tasks st)"
  using resume_names [of net st i] by (metis length_map)

lemma resume_rank:
  assumes "j < length (tasks st)"
  shows "rank (snd (tasks (resume net st i) ! j)) \<le> rank (snd (tasks st ! j)) - (if i = j then 1 else 0)"
proof (cases "i < length (tasks st)")
  case False
  with assms show ?thesis by (auto simp: resume_def)
next
  case True
  obtain p ph where t: "tasks st ! i = (p, ph)" by (cases "tasks st ! i")
  show ?thesis
  proof (cases ph)
    case AwaitingRegistry
    from registry_arrived_tasks [of net st i p] obtain ph' where "ph' \<noteq> AwaitingRegistry"
      and "tasks (registry_arrived net st i p) = (tasks st)[i := (fst (tasks st ! i), ph')]"
      by blast
    with True t AwaitingRegistry assms show ?thesis
      by (cases ph') (auto simp: resume_def nth_list_update)
  next
    case AwaitingDownloads
    with True t assms downloads_arrived_tasks [of net st i p] show ?thesis
      by (auto simp: resume_def nth_list_update)
  next
    case Settled
    with True t assms show ?thesis by (auto simp: resume_def)
  qed
qed

lemma arrivals_rank:
  "j < length (tasks st) \<Longrightarrow>
   rank (snd (tasks (foldl (resume net) st arrivals) ! j)) \<le> rank (snd (tasks st ! j)) - count_list arrivals j"
proof (induction arrivals arbitrary: st)
  case Nil
  then show ?case by simp
next
  case (Cons i arrivals)
  from Cons.prems have j: "j < length (tasks (resume net st i))" by (simp add: resume_length)
  from Cons.IH [OF j] resume_rank [OF Cons.prems, of net i] show ?case by auto
qed

lemma fetch_returns:
  assumes "\<forall>i < length packageNames. 2 \<le> count_list arrivals i"
  shows "\<exists>result. fetchNpmMetadata net arrivals packageNames = Some result"
proof -
  let ?settled = "arrive net arrivals packageNames"
  have len: "length (tasks ?settled) = length packageNames"
    using arrive_names [of net arrivals packageNames] by (metis length_map)
  have "snd (tasks ?settled ! j) = Settled" if j: "j < length packageNames" for j
  proof -
    from j have "j < length (tasks (started packageNames))" by (simp add: started_def)
    from arrivals_rank [OF this, of net arrivals] j assms
    have "rank (snd (tasks ?settled ! j)) = 0"
      by (auto simp: arrive_def started_def)
    then show ?thesis by (cases "snd (tasks ?settled ! j)") simp_all
  qed
  then have "list_all (\<lambda>task. snd task = Settled) (tasks ?settled)"
    unfolding list_all_length len by simp
  then show ?thesis by (simp add: fetchNpmMetadata_def Let_def)
qed

text \<open>
  The fetch of two packages on the sample registry, by evaluation: the registry
  response of \<^verbatim>\<open>moment\<close> arrives first, then the rejection of \<^verbatim>\<open>left-pad\<close>, then the
  download count of \<^verbatim>\<open>moment\<close>.
\<close>

lemmas fetch_defs = fetchNpmMetadata_def arrive_def started_def resume_def registry_arrived_def
  downloads_arrived_def wait_def registry_down_def
  enrich_def obj_assign_def obj_modify_def obj_get_def Object_keys_def empty_object_def
  fetched_def degraded_def or_string_def or_number_def alternatives_for_def

lemma sample_fetch:
  "fetchNpmMetadata registry_down [1, 0, 1] [js ''left-pad'', js ''moment''] =
     Some \<lparr>packageData =
             \<lparr>own = [(js ''moment'',
                      \<lparr>name = js ''moment'', description = [], version = js ''2.30.1'',
                        license = Some (js ''MIT''), homepage = Some [], repository = Some [],
                        maintainers = Some 5, lastPublished = Some [], dependencies = Some [],
                        weeklyDownloads = Some 1000,
                        alternatives = Some [js ''date-fns'', js ''dayjs'', js ''luxon''],
                        error = None\<rparr>),
                     (js ''left-pad'',
                      \<lparr>name = js ''left-pad'', description = js ''Could not fetch package data'',
                        version = [], license = None, homepage = None, repository = None,
                        maintainers = None, lastPublished = None, dependencies = None,
                        weeklyDownloads = None, alternatives = Some [],
                        error = Some (js ''Request failed with status code 404'')\<rparr>)],
               proto = None\<rparr>,
           requests = {RegistryGet (js ''left-pad''), RegistryGet (js ''moment''), DownloadsGet (js ''moment'')},
           tasks = [(js ''left-pad'', Settled), (js ''moment'', Settled)]\<rparr>"
  by (simp add: fetch_defs Let_def js_def insert_commute)

text \<open>
  C4. Whatever the order of the arrivals, when the fetch returns every key of the
  result has an entry whose alternatives are present and are those of the fixed
  table; the table gives \<^verbatim>\<open>moment\<close> the three names \<^verbatim>\<open>date-fns\<close>, \<^verbatim>\<open>dayjs\<close>,
  \<^verbatim>\<open>luxon\<close>, and the empty list to every name other than its five.
\<close>

theorem alternatives_enrichment:
  "(\<forall>result. fetchNpmMetadata net arrivals packageNames = Some result \<longrightarrow>
      (\<forall>packageName \<in> set (Object_keys (packageData result)).
         \<exists>r. obj_get (packageData result) packageName = Some r \<and>
             alternatives r = Some (alternatives_for packageName))) \<and>
   alternatives_for (js ''moment'') = [js ''date-fns'', js ''dayjs'', js ''luxon''] \<and>
   (\<forall>packageName. packageName \<notin> set [js ''moment'', js ''lodash'', js ''underscore'', js ''request'', js ''jquery'']
      \<longrightarrow> alternatives_for packageName = [])"
proof (intro conjI ballI allI impI)
  fix result packageName
  let ?settled = "arrive net arrivals packageNames"
  assume "fetchNpmMetadata net arrivals packageNames = Some result"
  then have result: "packageData result = enrich (packageData ?settled)"
    by (auto dest: fetchNpmMetadata_Some)
  assume "packageName \<in> set (Object_keys (packageData result))"
  then have key: "packageName \<in> set (Object_keys (packageData ?settled))"
    by (simp add: result enrich_keys)
  have special: "js ''__proto__'' \<notin> set (Object_keys (packageData ?settled))"
    by (rule arrive_keys)
  with key have "packageName \<noteq> js ''__proto__''" by auto
  with enrich_own [OF special key]
  show "\<exists>r. obj_get (packageData result) packageName = Some r \<and>
          alternatives r = Some (alternatives_for packageName)"
    by (simp add: result obj_get_def)
qed (simp_all add: alternatives_table)

theorem alternatives_enrichment_witness:
  "(\<exists>result. fetchNpmMetadata registry_down [1, 0, 1] [js ''left-pad'', js ''moment''] = Some result \<and>
      Object_keys (packageData result) = [js ''moment'', js ''left-pad''] \<and>
      (\<exists>r. obj_get (packageData result) (js ''left-pad'') = Some r \<and> alternatives r = Some []) \<and>
      (\<exists>r. obj_get (packageData result) (js ''moment'') = Some r \<and>
           alternatives r = Some [js ''date-fns'', js ''dayjs'', js ''luxon'']))"
proof -
  obtain result where result: "fetchNpmMetadata registry_down [1, 0, 1] [js ''left-pad'', js ''moment''] = Some result"
    and keys: "Object_keys (packageData result) = [js ''moment'', js ''left-pad'']"
    unfolding sample_fetch by (simp add: Object_keys_def)
  note inst = alternatives_enrichment [of registry_down "[1, 0, 1]" "[js ''left-pad'', js ''moment'']"]
  have "js ''left-pad'' \<notin> set [js ''moment'', js ''lodash'', js ''underscore'', js ''request'', js ''jquery'']"
    by (simp add: js_def)
  with inst have table: "alternatives_for (js ''left-pad'') = []"
    "alternatives_for (js ''moment'') = [js ''date-fns'', js ''dayjs'', js ''luxon'']"
    by blast+
  from inst result
  have "\<forall>packageName \<in> set (Object_keys (packageData result)).
      \<exists>r. obj_get (packageData result) packageName = Some r \<and>
          alternatives r = Some (alternatives_for packageName)"
    by blast
  then have "(\<exists>r. obj_get (packageData result) (js ''left-pad'') = Some r \<and> alternatives r = Some []) \<and>
      (\<exists>r. obj_get (packageData result) (js ''moment'') = Some r \<and>
           alternatives r = Some [js ''date-fns'', js ''dayjs'', js ''luxon''])"
    unfolding keys by (simp add: table)
  with result keys show ?thesis by blast
qed

text \<open>The invariant of a package whose registry request is rejected.\<close>

lemma untouched_started: "untouched p e (started packageNames)"
  by (auto simp: untouched_def started_def)

lemma untouched_wait_other:
  assumes "untouched p e st" and "i < length (tasks st)" and "fst (tasks st ! i) \<noteq> p"
    and "obj_get pd p = obj_get (packageData st) p" and "DownloadsGet p \<notin> reqs"
  shows "untouched p e (wait (st\<lparr>packageData := pd, requests := reqs\<rparr>) i ph)"
proof -
  have sub: "task \<in> set ((tasks st)[i := (fst (tasks st ! i), ph)]) \<Longrightarrow> fst task = p \<Longrightarrow> task \<in> set (tasks st)"
    for task
    using assms(3) set_update_subset_insert [of "tasks st" i "(fst (tasks st ! i), ph)"] by auto
  from assms(1,4,5) show ?thesis
    unfolding untouched_def wait_simps
    by (auto dest: sub)
qed

lemma untouched_resume:
  assumes "registry net p = Rejected e" and "untouched p e st"
  shows "untouched p e (resume net st i)"
proof (cases "i < length (tasks st)")
  case False
  with assms(2) show ?thesis by (simp add: resume_def)
next
  case True
  obtain q ph where t: "tasks st ! i = (q, ph)" by (cases "tasks st ! i")
  from True t have mem: "(q, ph) \<in> set (tasks st)" by (metis nth_mem)
  show ?thesis
  proof (cases "q = p")
    case True
    with mem assms(2) have "ph \<noteq> AwaitingDownloads" by (auto simp: untouched_def)
    show ?thesis
    proof (cases "ph = Settled")
      case True
      with t \<open>i < length (tasks st)\<close> assms(2) show ?thesis by (simp add: resume_def)
    next
      case False
      with \<open>ph \<noteq> AwaitingDownloads\<close> have ph: "ph = AwaitingRegistry" by (cases ph) auto
      let ?st' = "wait (st\<lparr>packageData := obj_assign (packageData st) p (degraded p e)\<rparr>) i Settled"
      from assms(1) t ph \<open>q = p\<close> \<open>i < length (tasks st)\<close>
      have step: "resume net st i = ?st'"
        by (simp add: resume_def registry_arrived_def)
      have tasks': "tasks ?st' = (tasks st)[i := (p, Settled)]"
        using t \<open>q = p\<close> by (simp add: wait_simps)
      have sub: "task = (p, Settled) \<or> task \<in> set (tasks st)" if "task \<in> set (tasks ?st')" for task
        using that set_update_subset_insert [of "tasks st" i "(p, Settled)"] unfolding tasks' by auto
      have "\<forall>task \<in> set (tasks ?st'). fst task = p \<longrightarrow> snd task \<noteq> AwaitingDownloads"
        using assms(2) by (auto simp: untouched_def dest!: sub)
      moreover have "DownloadsGet p \<notin> requests ?st'"
        using assms(2) by (simp add: untouched_def wait_simps)
      moreover have "obj_get (packageData ?st') p = Some (degraded p e)"
        by (simp add: wait_simps obj_get_assign)
      ultimately show ?thesis unfolding step untouched_def by blast
    qed
  next
    case False
    have fst: "fst (tasks st ! i) \<noteq> p" using False t by simp
    have other: "untouched p e (wait (st\<lparr>packageData := pd, requests := reqs\<rparr>) i ph')"
      if "obj_get pd p = obj_get (packageData st) p" and "DownloadsGet p \<notin> reqs" for pd reqs ph'
      using untouched_wait_other [OF assms(2) True fst that] .
    have same: "st = st\<lparr>packageData := packageData st, requests := requests st\<rparr>" by simp
    from assms(2) have noreq: "DownloadsGet p \<notin> requests st" by (simp add: untouched_def)
    have r: "untouched p e (registry_arrived net st i q)"
    proof (cases "registry net q")
      case (Rejected e')
      from other [of "obj_assign (packageData st) q (degraded q e')" "requests st" Settled] False noreq
      show ?thesis by (simp add: registry_arrived_def Rejected obj_get_assign)
    next
      case (Resolved status body)
      show ?thesis
      proof (cases "status = 200")
        case False
        from other [of "packageData st" "requests st" Settled] noreq
        show ?thesis by (simp add: registry_arrived_def Resolved False)
      next
        case True
        show ?thesis
        proof (cases body)
          case None
          from other [of "obj_assign (packageData st) q
              (degraded q (Error (js ''Cannot read properties of null (reading 'dist-tags')'')))"
              "requests st" Settled] \<open>q \<noteq> p\<close> noreq
          show ?thesis by (simp add: registry_arrived_def Resolved True None obj_get_assign)
        next
          case (Some data)
          from other [of "obj_assign (packageData st) q (fetched q data)"
              "insert (DownloadsGet q) (requests st)" AwaitingDownloads] \<open>q \<noteq> p\<close> noreq
          show ?thesis by (simp add: registry_arrived_def Resolved True Some obj_get_assign)
        qed
      qed
    qed
    have d: "untouched p e (downloads_arrived net st i q)"
    proof (cases "downloads_api net q")
      case (Rejected e')
      from other [of "packageData st" "requests st" Settled] noreq
      show ?thesis by (simp add: downloads_arrived_def Rejected)
    next
      case (Resolved status body)
      show ?thesis
      proof (cases "status = 200 \<and> body \<noteq> None")
        case False
        from other [of "packageData st" "requests st" Settled] noreq False
        show ?thesis by (auto simp: downloads_arrived_def Resolved split: option.splits)
      next
        case True
        then obtain data where "body = Some data" by auto
        with True other [of "obj_modify (packageData st) q
              (\<lambda>r. r\<lparr>weeklyDownloads := Some (or_number (data_downloads data) 0)\<rparr>)" "requests st" Settled]
          \<open>q \<noteq> p\<close> noreq
        show ?thesis by (simp add: downloads_arrived_def Resolved obj_get_modify)
      qed
    qed
    from r d assms(2) t True show ?thesis by (cases ph) (simp_all add: resume_def)
  qed
qed

lemma untouched_arrive:
  assumes "registry net p = Rejected e"
  shows "untouched p e (arrive net arrivals packageNames)"
proof -
  have "untouched p e st \<Longrightarrow> untouched p e (foldl (resume net) st arrivals)" for st
    by (induction arrivals arbitrary: st) (simp_all add: untouched_resume [OF assms])
  then show ?thesis by (simp add: arrive_def untouched_started)
qed

text \<open>
  C2. Whatever the order of the arrivals, when the fetch returns, a package of the
  batch whose registry request is rejected has the degraded record: its name, the
  fixed description, the message of the error, the empty version and no
  \<open>weeklyDownloads\<close>; and no download-count request was sent for it.
\<close>

theorem failed_fetch_degraded:
  assumes "fetchNpmMetadata net arrivals packageNames = Some result"
    and "packageName \<in> set packageNames"
    and "registry net packageName = Rejected e"
  shows "\<exists>r. obj_get (packageData result) packageName = Some r \<and>
            name r = packageName \<and>
            description r = js ''Could not fetch package data'' \<and> description r \<noteq> [] \<and>
            error r = Some (errorString e) \<and>
            version r = [] \<and>
            weeklyDownloads r = None \<and>
            DownloadsGet packageName \<notin> requests result"
proof -
  let ?settled = "arrive net arrivals packageNames"
  from fetchNpmMetadata_Some [OF assms(1)]
  have all: "list_all (\<lambda>task. snd task = Settled) (tasks ?settled)"
    and result: "result = ?settled\<lparr>packageData := enrich (packageData ?settled)\<rparr>"
    by simp_all
  from assms(2) arrive_names [of net arrivals packageNames]
  obtain task where task: "task \<in> set (tasks ?settled)" "fst task = packageName"
    by (metis (no_types, lifting) image_iff list.set_map)
  with all have "snd task = Settled" by (simp add: list_all_iff)
  with task untouched_arrive [OF assms(3), of arrivals packageNames]
  have got: "obj_get (packageData ?settled) packageName = Some (degraded packageName e)"
    and sent: "DownloadsGet packageName \<notin> requests ?settled"
    by (auto simp: untouched_def)
  from enrich_fold_get [OF got] obtain a
    where "obj_get (enrich (packageData ?settled)) packageName = Some ((degraded packageName e)\<lparr>alternatives := a\<rparr>)"
    unfolding enrich_alt by blast
  with sent show ?thesis
    by (simp add: result degraded_def js_def)
qed

theorem failed_fetch_degraded_witness:
  "js ''left-pad'' \<in> set [js ''left-pad'', js ''moment''] \<and>
   registry registry_down (js ''left-pad'') = Rejected (Error (js ''Request failed with status code 404'')) \<and>
   (\<exists>result. fetchNpmMetadata registry_down [1, 0, 1] [js ''left-pad'', js ''moment''] = Some result \<and>
      (\<exists>r. obj_get (packageData result) (js ''left-pad'') = Some r \<and>
           name r = js ''left-pad'' \<and> description r \<noteq> [] \<and> version r = [] \<and>
           error r = Some (js ''Request failed with status code 404'') \<and> weeklyDownloads r = None) \<and>
      DownloadsGet (js ''left-pad'') \<notin> requests result)"
proof -
  have listed: "js ''left-pad'' \<in> set [js ''left-pad'', js ''moment'']" by simp
  have rejected: "registry registry_down (js ''left-pad'') = Rejected (Error (js ''Request failed with status code 404''))"
    by (simp add: registry_down_def js_def)
  obtain result where result: "fetchNpmMetadata registry_down [1, 0, 1] [js ''left-pad'', js ''moment''] = Some result"
    unfolding sample_fetch by simp
  from failed_fetch_degraded [OF result listed rejected] listed rejected result show ?thesis by auto
qed

section \<open>The tree walk\<close>

lemma add_file_suggested:
  "set (suggestedAnalysis (add_file p r entry)) =
     set (suggestedAnalysis r) \<union> (if many_imports (snd entry) then {path_join p (fst entry)} else {})"
  by (auto simp: add_file_def Let_def many_imports_def split: sum.splits)

lemma foldl_add_file_suggested:
  "set (suggestedAnalysis (foldl (add_file p) r fs)) =
     set (suggestedAnalysis r) \<union>
     (\<lambda>entry. path_join p (fst entry)) ` {entry \<in> set fs. many_imports (snd entry)}"
proof (induction fs arbitrary: r)
  case Nil
  then show ?case by simp
next
  case (Cons entry fs)
  show ?case
    unfolding foldl_Cons Cons.IH add_file_suggested by (cases "many_imports (snd entry)") auto
qed

lemma visited_Directory:
  "(f, n) \<in> set (visited p (Directory es)) \<longleftrightarrow>
     (\<exists>entry \<in> set (list_files es). f = path_join p (fst entry) \<and> n = snd entry) \<or>
     (\<exists>d \<in> set (list_directories es). (f, n) \<in> set (visited (path_join p (fst d)) (snd d)))"
  by auto

lemma walk_suggested:
  "(\<forall>a. analyzeProjectStructure p t = Inr a \<longrightarrow>
      set (suggestedAnalysis a) = {f. \<exists>n. (f, n) \<in> set (visited p t) \<and> many_imports n})"
  and
  "(\<forall>r'. walk_directories p ds r = Inr r' \<longrightarrow>
      set (suggestedAnalysis r') = set (suggestedAnalysis r) \<union>
        {f. \<exists>d \<in> set ds. \<exists>n. (f, n) \<in> set (visited (path_join p (fst d)) (snd d)) \<and> many_imports n})"
proof (induction p t and p ds r rule: analyzeProjectStructure_walk_directories.induct)
  case (1 targetPath e)
  then show ?case by (simp add: empty_analysis_def)
next
  case (2 targetPath c)
  then show ?case by simp
next
  case (3 targetPath e)
  then show ?case by simp
next
  case (4 targetPath allEntries)
  show ?case
  proof (intro allI impI)
    fix a assume a: "analyzeProjectStructure targetPath (Directory allEntries) = Inr a"
    then obtain r' where r': "walk_directories targetPath (list_directories allEntries) empty_analysis = Inr r'"
      and a_def: "a = foldl (add_file targetPath) r' (list_files allEntries)"
      by (auto split: sum.splits)
    from 4 r' have "set (suggestedAnalysis r') =
        {f. \<exists>d \<in> set (list_directories allEntries). \<exists>n. (f, n) \<in> set (visited (path_join targetPath (fst d)) (snd d)) \<and> many_imports n}"
      by (simp add: empty_analysis_def)
    then show "set (suggestedAnalysis a) = {f. \<exists>n. (f, n) \<in> set (visited targetPath (Directory allEntries)) \<and> many_imports n}"
      unfolding a_def foldl_add_file_suggested visited_Directory by blast
  qed
next
  case (5 targetPath analysisResult)
  then show ?case by simp
next
  case (6 targetPath d rest analysisResult)
  show ?case
  proof (intro allI impI)
    fix r' assume r': "walk_directories targetPath (d # rest) analysisResult = Inr r'"
    then obtain sub where sub: "analyzeProjectStructure (path_join targetPath (fst d)) (snd d) = Inr sub"
      and rest: "walk_directories targetPath rest (add_directory targetPath analysisResult (fst d) sub) = Inr r'"
      by (auto split: sum.splits)
    from 6(1) sub have s1: "set (suggestedAnalysis sub) =
        {f. \<exists>n. (f, n) \<in> set (visited (path_join targetPath (fst d)) (snd d)) \<and> many_imports n}"
      by simp
    from 6(2) [OF sub] rest have s2: "set (suggestedAnalysis r') =
        set (suggestedAnalysis (add_directory targetPath analysisResult (fst d) sub)) \<union>
        {f. \<exists>d \<in> set rest. \<exists>n. (f, n) \<in> set (visited (path_join targetPath (fst d)) (snd d)) \<and> many_imports n}"
      by simp
    show "set (suggestedAnalysis r') = set (suggestedAnalysis analysisResult) \<union>
        {f. \<exists>d \<in> set (d # rest). \<exists>n. (f, n) \<in> set (visited (path_join targetPath (fst d)) (snd d)) \<and> many_imports n}"
      unfolding s2 using s1 by (auto simp: add_directory_def)
  qed
qed

lemma visited_prefix: "(f, n) \<in> set (visited p t) \<Longrightarrow> \<exists>s. f = p @ 0x2F # s"
proof (induction p t rule: visited.induct)
  case (1 targetPath allEntries)
  from "1.prems" show ?case unfolding visited_Directory
  proof (elim disjE bexE conjE)
    fix d assume d: "d \<in> set (list_directories allEntries)"
      and "(f, n) \<in> set (visited (path_join targetPath (fst d)) (snd d))"
    from "1.IH" [OF this] show ?thesis by (auto simp: path_join_def js_def)
  qed (simp add: path_join_def js_def)
qed simp_all

lemma first_name_file: "0x2F \<notin> set nm \<Longrightarrow> first_name p (path_join p nm) = nm"
  by (auto simp: first_name_def path_join_def js_def takeWhile_eq_all_conv)

lemma first_name_below:
  "0x2F \<notin> set nm \<Longrightarrow> first_name p (path_join p nm @ 0x2F # s) = nm"
  by (auto simp: first_name_def path_join_def js_def takeWhile_tail)

lemma visited_first_name:
  assumes "(f, n) \<in> set (visited p (Directory es))" and "well_formed (Directory es)"
  shows "\<exists>entry \<in> set es. first_name p f = fst entry \<and>
           (if isDirectory (snd entry) = Inr True
            then entry \<in> set (list_directories es) \<and>
                 (f, n) \<in> set (visited (path_join p (fst entry)) (snd entry))
            else f = path_join p (fst entry) \<and> n = snd entry)"
  using assms(1) unfolding visited_Directory
proof (elim disjE bexE conjE)
  fix entry assume e: "entry \<in> set (list_files es)" and f: "f = path_join p (fst entry)" and n: "n = snd entry"
  from e have mem: "entry \<in> set es" and nd: "isDirectory (snd entry) = Inr False"
    by (auto simp: list_files_def)
  from mem assms(2) have "0x2F \<notin> set (fst entry)" by (auto simp: list_all_iff)
  with f have "first_name p f = fst entry" by (simp add: first_name_file)
  with mem nd f n show ?thesis by (intro bexI [of _ entry]) auto
next
  fix d assume d: "d \<in> set (list_directories es)" and r: "(f, n) \<in> set (visited (path_join p (fst d)) (snd d))"
  from d have mem: "d \<in> set es" and isd: "isDirectory (snd d) = Inr True"
    by (auto simp: list_directories_def)
  from mem assms(2) have noslash: "0x2F \<notin> set (fst d)" by (auto simp: list_all_iff)
  from visited_prefix [OF r] obtain s where "f = path_join p (fst d) @ 0x2F # s" by blast
  with noslash have "first_name p f = fst d" by (simp add: first_name_below)
  with mem isd r d show ?thesis by (intro bexI [of _ d]) auto
qed

lemma same_entry:
  assumes "well_formed (Directory es)" and "x \<in> set es" and "y \<in> set es" and "fst x = fst y"
  shows "x = y"
  using assms by (auto simp: distinct_map dest: inj_onD)

lemma visited_unique:
  "(f, n) \<in> set (visited p t) \<Longrightarrow> (f, n') \<in> set (visited p t) \<Longrightarrow> well_formed t \<Longrightarrow> n = n'"
proof (induction p t rule: visited.induct)
  case (1 targetPath allEntries)
  from visited_first_name [OF "1.prems"(1,3)] obtain x where x: "x \<in> set allEntries"
    and fx: "first_name targetPath f = fst x"
    and ax: "if isDirectory (snd x) = Inr True
            then x \<in> set (list_directories allEntries) \<and>
                 (f, n) \<in> set (visited (path_join targetPath (fst x)) (snd x))
            else f = path_join targetPath (fst x) \<and> n = snd x"
    by blast
  from visited_first_name [OF "1.prems"(2,3)] obtain y where y: "y \<in> set allEntries"
    and fy: "first_name targetPath f = fst y"
    and ay: "if isDirectory (snd y) = Inr True
            then y \<in> set (list_directories allEntries) \<and>
                 (f, n') \<in> set (visited (path_join targetPath (fst y)) (snd y))
            else f = path_join targetPath (fst y) \<and> n' = snd y"
    by blast
  from same_entry [OF "1.prems"(3) x y] fx fy have xy: "x = y" by simp
  show ?case
  proof (cases "isDirectory (snd x) = Inr True")
    case True
    with ax ay xy have kept: "x \<in> set (list_directories allEntries)"
      and in1: "(f, n) \<in> set (visited (path_join targetPath (fst x)) (snd x))"
      and in2: "(f, n') \<in> set (visited (path_join targetPath (fst x)) (snd x))"
      by simp_all
    from x "1.prems"(3) have wf: "well_formed (snd x)" by (auto simp: list_all_iff)
    from "1.IH" [OF kept in1 in2 wf] show ?thesis .
  next
    case False
    with ax ay xy show ?thesis by simp
  qed
qed simp_all

text \<open>The tests on entry names and the bodies of the loops, for evaluation.\<close>

lemma endsWith_code: "endsWith s p \<longleftrightarrow> prefix (rev p) (rev s)"
  by (simp add: endsWith_def suffix_to_prefix)

lemmas walk_defs = list_directories_def list_files_def keep_directory_def keep_file_def
  startsWith_def endsWith_code add_file_def add_directory_def Object_assign_def path_join_def
  empty_analysis_def

text \<open>
  C3. A directory whose listing cannot be read, next to a readable file: the error
  of \<^verbatim>\<open>readdirSync\<close> leaves the recursive call and the walk of the parent, and no
  analysis is returned; the sibling file is not processed.
\<close>

theorem unreadable_subdirectory_aborts_walk:
  "analyzeProjectStructure (js ''/project'') locked_project =
     Inl (Error (js ''EACCES: permission denied, scandir''))"
  by (simp add: locked_project_def walk_defs js_def)

text \<open>
  C5. In a walk that returns, over a tree of well-formed listings, a file the walk
  analyses is in the suggested list exactly when the extractor finds more than
  three packages in it: four or more put it there, three or fewer do not.
\<close>

theorem deep_dive_threshold:
  assumes "well_formed root"
    and "analyzeProjectStructure targetPath root = Inr analysis"
    and "(path, node) \<in> set (visited targetPath root)"
    and "analyzeFileImports (readFileSync node) = Inr found"
  shows "path \<in> set (suggestedAnalysis analysis) \<longleftrightarrow> 3 < length found"
proof
  assume "path \<in> set (suggestedAnalysis analysis)"
  with walk_suggested(1) [of targetPath root] assms(2)
  obtain n where "(path, n) \<in> set (visited targetPath root)" and many: "many_imports n" by auto
  with assms(1,3) have "n = node" by (auto dest: visited_unique)
  with many assms(4) show "3 < length found" by (simp add: many_imports_def)
next
  assume "3 < length found"
  with assms(4) have "many_imports node" by (simp add: many_imports_def)
  with walk_suggested(1) [of targetPath root] assms(2,3)
  show "path \<in> set (suggestedAnalysis analysis)" by auto
qed

theorem deep_dive_threshold_witness:
  "well_formed sample_project \<and>
   (\<exists>analysis. analyzeProjectStructure (js ''/project'') sample_project = Inr analysis \<and>
      (js ''/project/src/big.js'', File (Inr big_js)) \<in> set (visited (js ''/project'') sample_project) \<and>
      (js ''/project/small.js'', File (Inr small_js)) \<in> set (visited (js ''/project'') sample_project) \<and>
      js ''/project/src/big.js'' \<in> set (suggestedAnalysis analysis) \<and>
      js ''/project/small.js'' \<notin> set (suggestedAnalysis analysis))"
proof -
  have wf: "well_formed sample_project"
    by (simp add: sample_project_def js_def)
  have seen: "visited (js ''/project'') sample_project =
      [(js ''/project/src/big.js'', File (Inr big_js)), (js ''/project/small.js'', File (Inr small_js))]"
    by (simp add: sample_project_def walk_defs js_def)
  obtain analysis where walk: "analyzeProjectStructure (js ''/project'') sample_project = Inr analysis"
    by (simp add: sample_project_def walk_defs js_def big_js_imports small_js_imports)
  have big: "(js ''/project/src/big.js'', File (Inr big_js)) \<in> set (visited (js ''/project'') sample_project)"
    and small: "(js ''/project/small.js'', File (Inr small_js)) \<in> set (visited (js ''/project'') sample_project)"
    unfolding seen by simp_all
  have "js ''/project/src/big.js'' \<in> set (suggestedAnalysis analysis)"
    using deep_dive_threshold [OF wf walk big, of "[js ''a'', js ''b'', js ''c'', js ''d'']"]
    by (simp add: big_js_imports)
  moreover have "js ''/project/small.js'' \<notin> set (suggestedAnalysis analysis)"
    using deep_dive_threshold [OF wf walk small, of "[js ''a'', js ''b'', js ''c'']"]
    by (simp add: small_js_imports)
  ultimately show ?thesis using wf walk big small by blast
qed

section \<open>Usage aggregation, permuted\<close>

lemma bump_bump: "bump n (bump m c) = bump (m + n) c"
  by (auto simp: bump_def split: option.splits)

lemma bump_0: "bump 0 c = c"
  by (auto simp: bump_def split: option.splits)

lemma count_import_Inr:
  assumes "pkg \<notin> set Object_prototype_keys"
  shows "\<exists>u'. count_import f u pkg = Inr u' \<and>
           (\<forall>q. map_option count (map_of u' q) = bump (if q = pkg then 1 else 0) (map_option count (map_of u q)))"
  using assms
  by (auto simp: count_import_def Let_def map_of_map_entry update_conv' bump_def split: option.splits)

lemma count_import_Inl:
  "pkg \<in> set Object_prototype_keys \<Longrightarrow> count_import f u pkg = Inl TypeError_push"
  by (simp add: count_import_def TypeError_push_def)

lemma count_imports_Inl: "inherited pkgs \<Longrightarrow> count_imports f u pkgs = Inl TypeError_push"
proof (induction pkgs arbitrary: u)
  case Nil
  then show ?case by (simp add: inherited_def)
next
  case (Cons pkg pkgs)
  show ?case
  proof (cases "pkg \<in> set Object_prototype_keys")
    case True
    then show ?thesis by (simp add: count_import_Inl)
  next
    case False
    with Cons.prems have "inherited pkgs" by (auto simp: inherited_def)
    with Cons.IH count_import_Inr [OF False, of f u] show ?thesis by auto
  qed
qed

lemma count_imports_Inr:
  "\<not> inherited pkgs \<Longrightarrow>
   \<exists>u'. count_imports f u pkgs = Inr u' \<and>
      (\<forall>q. map_option count (map_of u' q) = bump (count_list pkgs q) (map_option count (map_of u q)))"
proof (induction pkgs arbitrary: u)
  case Nil
  then show ?case by (simp add: bump_0)
next
  case (Cons pkg pkgs)
  then have ok: "pkg \<notin> set Object_prototype_keys" and rest: "\<not> inherited pkgs"
    by (auto simp: inherited_def)
  from count_import_Inr [OF ok, of f u] obtain u1 where u1: "count_import f u pkg = Inr u1"
    and c1: "\<forall>q. map_option count (map_of u1 q) = bump (if q = pkg then 1 else 0) (map_option count (map_of u q))"
    by blast
  from Cons.IH [OF rest, of u1] obtain u2 where u2: "count_imports f u1 pkgs = Inr u2"
    and c2: "\<forall>q. map_option count (map_of u2 q) = bump (count_list pkgs q) (map_option count (map_of u1 q))"
    by blast
  from u1 u2 have "count_imports f u (pkg # pkgs) = Inr u2" by simp
  moreover have "\<forall>q. map_option count (map_of u2 q) = bump (count_list (pkg # pkgs) q) (map_option count (map_of u q))"
    using c1 c2 by (auto simp: bump_bump)
  ultimately show ?case by blast
qed

lemma count_entries_Inl: "any_inherited es \<Longrightarrow> count_entries u es = Inl TypeError_push"
proof (induction es arbitrary: u)
  case Nil
  then show ?case by (simp add: any_inherited_def)
next
  case (Cons entry es)
  obtain f pkgs where entry: "entry = (f, pkgs)" by (cases entry)
  show ?case
  proof (cases "inherited pkgs")
    case True
    then show ?thesis by (simp add: entry count_imports_Inl)
  next
    case False
    with Cons.prems entry have "any_inherited es" by (auto simp: any_inherited_def)
    with Cons.IH count_imports_Inr [OF False, of f u] show ?thesis by (auto simp: entry)
  qed
qed

lemma count_entries_Inr:
  "\<not> any_inherited es \<Longrightarrow>
   \<exists>u'. count_entries u es = Inr u' \<and>
      (\<forall>q. map_option count (map_of u' q) = bump (references es q) (map_option count (map_of u q)))"
proof (induction es arbitrary: u)
  case Nil
  then show ?case by (simp add: bump_0 references_def)
next
  case (Cons entry es)
  obtain f pkgs where entry: "entry = (f, pkgs)" by (cases entry)
  from Cons.prems entry have ok: "\<not> inherited pkgs" and rest: "\<not> any_inherited es"
    by (auto simp: any_inherited_def)
  from count_imports_Inr [OF ok, of f u] obtain u1 where u1: "count_imports f u pkgs = Inr u1"
    and c1: "\<forall>q. map_option count (map_of u1 q) = bump (count_list pkgs q) (map_option count (map_of u q))"
    by blast
  from Cons.IH [OF rest, of u1] obtain u2 where u2: "count_entries u1 es = Inr u2"
    and c2: "\<forall>q. map_option count (map_of u2 q) = bump (references es q) (map_option count (map_of u1 q))"
    by blast
  from u1 u2 have "count_entries u (entry # es) = Inr u2" by (simp add: entry)
  moreover have "\<forall>q. map_option count (map_of u2 q) = bump (references (entry # es) q) (map_option count (map_of u q))"
    using c1 c2 by (auto simp: bump_bump references_def entry)
  ultimately show ?case by blast
qed

lemma packageUsage_cases:
  "packageUsage es =
     (if any_inherited es then Inl TypeError_push else packageUsage es) \<and>
   (\<not> any_inherited es \<longrightarrow>
     (\<exists>u. packageUsage es = Inr u \<and>
        (\<forall>q. map_option count (map_of u q) = (if references es q = 0 then None else Some (references es q)))))"
  using count_entries_Inl [of es "[]"] count_entries_Inr [of es "[]"]
  by (auto simp: packageUsage_def bump_def)

lemma references_mset:
  assumes "mset es = mset es'"
  shows "references es q = references es' q"
proof -
  have "references xs q = sum_mset (image_mset (\<lambda>entry. count_list (snd entry) q) (mset xs))" for xs
    by (simp add: references_def flip: sum_mset_sum_list)
  with assms show ?thesis by simp
qed

lemma any_inherited_mset: "mset es = mset es' \<Longrightarrow> any_inherited es = any_inherited es'"
  by (auto simp: any_inherited_def dest: mset_eq_setD)

lemma keys_of_counts:
  "set (map fst u) = {q. map_option count (map_of u q) \<noteq> None}"
  by (auto simp: map_of_eq_None_iff image_iff)

lemma references_distinct:
  assumes "\<forall>entry \<in> set es. distinct (snd entry)"
  shows "references es q = length (filter (\<lambda>entry. q \<in> set (snd entry)) es)"
  using assms
proof (induction es)
  case Nil
  then show ?case by (simp add: references_def)
next
  case (Cons entry es)
  have once: "distinct xs \<Longrightarrow> count_list xs q = (if q \<in> set xs then 1 else 0)" for xs
    by (induction xs) auto
  from Cons.prems have "distinct (snd entry)" by simp
  from once [OF this] Cons show ?case by (simp add: references_def)
qed

lemma foldl_set_add: "set (foldl set_add acc pkgs) = set acc \<union> set pkgs"
  by (induction pkgs arbitrary: acc) (auto simp: set_add_def)

lemma extractUniquePackages_set:
  "set (extractUniquePackages es) = (\<Union>entry \<in> set es. set (snd entry))"
proof -
  have "set (foldl (\<lambda>acc pkgs. foldl set_add acc pkgs) acc xs) = set acc \<union> (\<Union>pkgs \<in> set xs. set pkgs)" for acc xs
    by (induction xs arbitrary: acc) (auto simp: foldl_set_add)
  then show ?thesis by (simp add: extractUniquePackages_def)
qed

text \<open>
  C8. For two file maps with the same entries in a different order, the usage fold
  fails on both or returns on both; when it returns, the two indexes have the same
  keys and the same count for every package, and the count is the number of files
  that name the package when no list repeats a name. \<open>extractUniquePackages\<close>
  returns the same set on both.
\<close>

theorem aggregation_permutation_invariant:
  assumes "mset fileImports = mset permuted"
  shows "(case packageUsage fileImports of
            Inl e \<Rightarrow> packageUsage permuted = Inl e
          | Inr index \<Rightarrow>
              (\<exists>index'. packageUsage permuted = Inr index' \<and>
                 set (map fst index) = set (map fst index') \<and>
                 (\<forall>pkg. map_option count (map_of index pkg) = map_option count (map_of index' pkg))) \<and>
              ((\<forall>entry \<in> set fileImports. distinct (snd entry)) \<longrightarrow>
                 (\<forall>pkg u. map_of index pkg = Some u \<longrightarrow>
                    count u = length (filter (\<lambda>entry. pkg \<in> set (snd entry)) fileImports)))) \<and>
         set (extractUniquePackages fileImports) = set (extractUniquePackages permuted)"
proof (intro conjI)
  show "set (extractUniquePackages fileImports) = set (extractUniquePackages permuted)"
    using mset_eq_setD [OF assms] by (simp add: extractUniquePackages_set)
next
  show "case packageUsage fileImports of
            Inl e \<Rightarrow> packageUsage permuted = Inl e
          | Inr index \<Rightarrow>
              (\<exists>index'. packageUsage permuted = Inr index' \<and>
                 set (map fst index) = set (map fst index') \<and>
                 (\<forall>pkg. map_option count (map_of index pkg) = map_option count (map_of index' pkg))) \<and>
              ((\<forall>entry \<in> set fileImports. distinct (snd entry)) \<longrightarrow>
                 (\<forall>pkg u. map_of index pkg = Some u \<longrightarrow>
                    count u = length (filter (\<lambda>entry. pkg \<in> set (snd entry)) fileImports)))"
  proof (cases "any_inherited fileImports")
    case True
    with any_inherited_mset [OF assms] have "any_inherited permuted" by simp
    with True packageUsage_cases [of fileImports] packageUsage_cases [of permuted]
    show ?thesis by simp
  next
    case False
    with any_inherited_mset [OF assms] have ok': "\<not> any_inherited permuted" by simp
    from False packageUsage_cases [of fileImports] obtain u where u: "packageUsage fileImports = Inr u"
      and cu: "\<forall>q. map_option count (map_of u q) = (if references fileImports q = 0 then None else Some (references fileImports q))"
      by blast
    from ok' packageUsage_cases [of permuted] obtain u' where u': "packageUsage permuted = Inr u'"
      and cu': "\<forall>q. map_option count (map_of u' q) = (if references permuted q = 0 then None else Some (references permuted q))"
      by blast
    have same: "\<forall>q. map_option count (map_of u q) = map_option count (map_of u' q)"
      using cu cu' references_mset [OF assms] by simp
    then have keys: "set (map fst u) = set (map fst u')"
      unfolding keys_of_counts by simp
    have files: "(\<forall>entry \<in> set fileImports. distinct (snd entry)) \<longrightarrow>
        (\<forall>pkg x. map_of u pkg = Some x \<longrightarrow>
           count x = length (filter (\<lambda>entry. pkg \<in> set (snd entry)) fileImports))"
    proof (intro impI allI)
      fix pkg x
      assume d: "\<forall>entry \<in> set fileImports. distinct (snd entry)" and x: "map_of u pkg = Some x"
      from cu x have "Some (count x) = (if references fileImports pkg = 0 then None else Some (references fileImports pkg))"
        by (metis option.simps(9))
      then have "count x = references fileImports pkg" by (simp split: if_splits)
      with references_distinct [OF d] show "count x = length (filter (\<lambda>entry. pkg \<in> set (snd entry)) fileImports)"
        by simp
    qed
    from u u' same keys files show ?thesis by simp
  qed
qed

lemmas usage_defs = packageUsage_def count_import_def Object_prototype_keys_def

theorem aggregation_permutation_invariant_witness:
  "mset sample_imports = mset (rev sample_imports) \<and>
   list_all (\<lambda>entry. distinct (snd entry)) sample_imports \<and>
   (\<exists>index index'. packageUsage sample_imports = Inr index \<and>
      packageUsage (rev sample_imports) = Inr index' \<and>
      set (map fst index) = set (map fst index') \<and>
      map_option count (map_of index (js ''lodash'')) = Some 2 \<and>
      map_option count (map_of index' (js ''lodash'')) = Some 2) \<and>
   length (filter (\<lambda>entry. js ''lodash'' \<in> set (snd entry)) sample_imports) = 2 \<and>
   set (extractUniquePackages sample_imports) = set (extractUniquePackages (rev sample_imports))"
proof -
  let ?index = "[(js ''lodash'', \<lparr>count = 2, files = [js ''/w/a.ts'', js ''/w/b.js'']\<rparr>),
           (js ''react'', \<lparr>count = 1, files = [js ''/w/b.js'']\<rparr>)]"
  have perm: "mset sample_imports = mset (rev sample_imports)" by simp
  have dist: "\<forall>entry \<in> set sample_imports. distinct (snd entry)"
    by (simp add: sample_imports_def js_def)
  have index: "packageUsage sample_imports = Inr ?index"
    by (simp add: sample_imports_def usage_defs js_def)
  have lodash: "map_option count (map_of ?index (js ''lodash'')) = Some 2"
    by simp
  note inv = aggregation_permutation_invariant [OF perm]
  from inv have sets: "set (extractUniquePackages sample_imports) = set (extractUniquePackages (rev sample_imports))"
    by (rule conjunct2)
  from inv have both: "case packageUsage sample_imports of
            Inl e \<Rightarrow> packageUsage (rev sample_imports) = Inl e
          | Inr index \<Rightarrow>
              (\<exists>index'. packageUsage (rev sample_imports) = Inr index' \<and>
                 set (map fst index) = set (map fst index') \<and>
                 (\<forall>pkg. map_option count (map_of index pkg) = map_option count (map_of index' pkg))) \<and>
              ((\<forall>entry \<in> set sample_imports. distinct (snd entry)) \<longrightarrow>
                 (\<forall>pkg u. map_of index pkg = Some u \<longrightarrow>
                    count u = length (filter (\<lambda>entry. pkg \<in> set (snd entry)) sample_imports)))"
    by (rule conjunct1)
  from both have "(\<forall>entry \<in> set sample_imports. distinct (snd entry)) \<longrightarrow>
      (\<forall>pkg u. map_of ?index pkg = Some u \<longrightarrow>
         count u = length (filter (\<lambda>entry. pkg \<in> set (snd entry)) sample_imports))"
    unfolding index sum.case by (rule conjunct2)
  with dist have "\<forall>pkg u. map_of ?index pkg = Some u \<longrightarrow>
         count u = length (filter (\<lambda>entry. pkg \<in> set (snd entry)) sample_imports)"
    by (rule rev_mp)
  moreover have "map_of ?index (js ''lodash'') =
      Some \<lparr>count = 2, files = [js ''/w/a.ts'', js ''/w/b.js'']\<rparr>"
    by simp
  ultimately have "count \<lparr>count = 2, files = [js ''/w/a.ts'', js ''/w/b.js'']\<rparr> =
      length (filter (\<lambda>entry. js ''lodash'' \<in> set (snd entry)) sample_imports)"
    by blast
  then have named: "length (filter (\<lambda>entry. js ''lodash'' \<in> set (snd entry)) sample_imports) = 2"
    by simp
  from both have "\<exists>index'. packageUsage (rev sample_imports) = Inr index' \<and>
                 set (map fst ?index) = set (map fst index') \<and>
                 (\<forall>pkg. map_option count (map_of ?index pkg) = map_option count (map_of index' pkg))"
    unfolding index sum.case by (rule conjunct1)
  then obtain index' where rev: "packageUsage (rev sample_imports) = Inr index'"
    and keys: "set (map fst ?index) = set (map fst index')"
    and counts: "\<forall>pkg. map_option count (map_of ?index pkg) = map_option count (map_of index' pkg)"
    by blast
  from counts have "map_option count (map_of ?index (js ''lodash'')) = map_option count (map_of index' (js ''lodash''))"
    by (rule spec)
  with lodash have lodash': "map_option count (map_of index' (js ''lodash'')) = Some 2"
    by simp
  from index rev keys lodash lodash'
  have "\<exists>index index'. packageUsage sample_imports = Inr index \<and>
      packageUsage (rev sample_imports) = Inr index' \<and>
      set (map fst index) = set (map fst index') \<and>
      map_option count (map_of index (js ''lodash'')) = Some 2 \<and>
      map_option count (map_of index' (js ''lodash'')) = Some 2"
    by blast
  moreover from dist have "list_all (\<lambda>entry. distinct (snd entry)) sample_imports"
    by (simp add: list_all_iff)
  ultimately show ?thesis using perm sets named by blast
qed

section \<open>The commands\<close>







lemmas command_defs = analyzeSelectedFilesCommand_def analyzeCurrentFileCommand_def
  analyzeProjectCommand_def extractUniquePackages_def set_add_def


text \<open>
  C9 asks for a failure message that tells a missing target from a scan without
  packages. The command shows the same information message for a missing target
  and for an empty directory.
\<close>

theorem missing_target_indistinguishable:
  "analyzeProjectCommand registry_down [] None missing_disk (Some (js ''/missing'')) =
     (showInformationMessage (js ''No npm packages found in the project''), {}) \<and>
   analyzeProjectCommand registry_down [] None empty_disk (Some (js ''/missing'')) =
     (showInformationMessage (js ''No npm packages found in the project''), {})"
  by (simp add: command_defs missing_disk_def empty_disk_def walk_defs)

text \<open>
  C9, as the code has it. A target path that does not exist gives the empty
  analysis; the command sends no request and shows the message of a scan that found
  no packages, as it does when the path is an empty directory.
\<close>

theorem missing_target_reports_no_packages:
  assumes "disk targetPath = Inaccessible e"
  shows "analyzeProjectStructure targetPath (disk targetPath) = Inr empty_analysis \<and>
         analyzeProjectCommand net arrivals workspaceFolders disk (Some targetPath) =
           (showInformationMessage (js ''No npm packages found in the project''), {}) \<and>
         analyzeProjectCommand net arrivals workspaceFolders (disk(targetPath := Directory []))
             (Some targetPath) =
           (showInformationMessage (js ''No npm packages found in the project''), {})"
  using assms
  by (simp add: analyzeProjectCommand_def empty_analysis_def extractUniquePackages_def
      list_directories_def list_files_def)

theorem missing_target_reports_no_packages_witness:
  "missing_disk (js ''/missing'') = Inaccessible (Error (js ''ENOENT: no such file or directory, stat'')) \<and>
   analyzeProjectStructure (js ''/missing'') (missing_disk (js ''/missing'')) = Inr empty_analysis \<and>
   analyzeProjectCommand registry_down [] None missing_disk (Some (js ''/missing'')) =
     (showInformationMessage (js ''No npm packages found in the project''), {}) \<and>
   analyzeProjectCommand registry_down [] None (missing_disk(js ''/missing'' := Directory []))
       (Some (js ''/missing'')) =
     (showInformationMessage (js ''No npm packages found in the project''), {})"
proof -
  have missing: "missing_disk (js ''/missing'') = Inaccessible (Error (js ''ENOENT: no such file or directory, stat''))"
    by (simp add: missing_disk_def)
  from missing_target_reports_no_packages
      [where disk = missing_disk and targetPath = "js ''/missing''" and net = registry_down
        and arrivals = "[]" and workspaceFolders = None, OF missing] missing
  show ?thesis by blast
qed

end
